theory Spec2Isabelle
  imports Main "HOL-Library.Word"
begin

unbundle bit_operations_syntax

section \<open>CPU masks (glibc \<open>sched.h\<close> accessors used through \<open>compat.h\<close>)\<close>

text \<open>
  A \<open>cpu_set_t\<close> buffer is modelled by the set of the indices of its set bits. The
  accessors are the dynamically sized glibc macros: each of them takes the size of the
  buffer in bytes and guards the access with \<open>cpu / 8 < setsize\<close>, so a bit index at or
  beyond the end of the buffer is neither written nor read as set.
\<close>

type_synonym cpu_set = "nat set"

definition CPU_ZERO_S :: "nat \<Rightarrow> cpu_set \<Rightarrow> cpu_set" where
  "CPU_ZERO_S setsize cpusetp = Set.filter (\<lambda>b. \<not> b div 8 < setsize) cpusetp"

definition CPU_SET_S :: "nat \<Rightarrow> nat \<Rightarrow> cpu_set \<Rightarrow> cpu_set" where
  "CPU_SET_S cpu setsize cpusetp = (if cpu div 8 < setsize then insert cpu cpusetp else cpusetp)"

definition CPU_ISSET_S :: "nat \<Rightarrow> nat \<Rightarrow> cpu_set \<Rightarrow> bool" where
  "CPU_ISSET_S cpu setsize cpusetp \<longleftrightarrow> cpu div 8 < setsize \<and> cpu \<in> cpusetp"

section \<open>Parsing kernel bitmask strings (\<open>lib/cpumask.c\<close>)\<close>

text \<open>
  A C string is the list of its characters before the terminating NUL. \<open>isxdigit\<close> is
  the C library's test for the 22 hexadecimal digit characters.
\<close>

definition isxdigit :: "char \<Rightarrow> bool" where
  "isxdigit c \<longleftrightarrow> c \<in> set ''0123456789abcdefABCDEF''"

text \<open>The table \<open>ascii_vals\<close>, indexed by character code; unlisted entries are 0.\<close>

definition ascii_vals :: "nat \<Rightarrow> nat" where
  "ascii_vals n =
     (if 48 \<le> n \<and> n \<le> 57 then n - 48
      else if 65 \<le> n \<and> n \<le> 70 then n - 55
      else if 97 \<le> n \<and> n \<le> 102 then n - 87
      else 0)"

definition char_to_val :: "char \<Rightarrow> nat" where
  "char_to_val c = ascii_vals (of_char c)"

text \<open>
  The inner loop \<open>for (i = 0; i < 4; i++, val >>= 1)\<close>: the first argument counts the
  iterations left; the loop returns the advanced bit index and the mask.
\<close>

fun set_nibble :: "nat \<Rightarrow> nat \<Rightarrow> nat \<Rightarrow> nat \<Rightarrow> cpu_set \<Rightarrow> nat \<times> cpu_set" where
  "set_nibble 0 val cpu sz cpumask = (cpu, cpumask)"
| "set_nibble (Suc n) val cpu sz cpumask =
     set_nibble n (val div 2) (Suc cpu) sz
       (if odd val then CPU_SET_S cpu sz cpumask else cpumask)"

text \<open>
  The loop \<open>for ( ; pos >= buf; pos--)\<close>, over the characters from \<open>pos\<close> down to the
  start of the buffer (the list argument holds them in that order). The result is
  \<open>False\<close> when the loop leaves through \<open>goto err\<close>; the mask is returned in both cases.
\<close>

fun parse_digits :: "string \<Rightarrow> nat \<Rightarrow> nat \<Rightarrow> cpu_set \<Rightarrow> bool \<times> cpu_set" where
  "parse_digits [] cpu sz cpumask = (True, cpumask)"
| "parse_digits (c # cs) cpu sz cpumask =
     (if c = CHR '','' then parse_digits cs cpu sz cpumask
      else if \<not> isxdigit c then (False, cpumask)
      else case set_nibble 4 (char_to_val c) cpu sz cpumask of
             (cpu', cpumask') \<Rightarrow> parse_digits cs cpu' sz cpumask')"

text \<open>
  \<open>topology_cpumask_parse\<close>: the mask is zeroed, the scan for the last hexadecimal digit
  walks back from the end of the string, and both failure exits zero the mask again and
  return 1. The bit counter is an \<open>int\<close> in the source; it is a natural number here, the
  two agree on every string of fewer than \<open>2 ^ 29\<close> digits.
\<close>

definition topology_cpumask_parse :: "cpu_set \<Rightarrow> nat \<Rightarrow> string \<Rightarrow> int \<times> cpu_set" where
  "topology_cpumask_parse cpumask sz buf =
     (let zeroed = CPU_ZERO_S sz cpumask;
          pos = dropWhile (\<lambda>c. \<not> isxdigit c) (rev buf)
      in if pos = [] then (1, CPU_ZERO_S sz zeroed)
         else case parse_digits pos 0 sz zeroed of
                (True, cpumask') \<Rightarrow> (0, cpumask')
              | (False, cpumask') \<Rightarrow> (1, CPU_ZERO_S sz cpumask'))"

subsection \<open>Notions used to state the parser's properties\<close>

text \<open>
  A well-formed kernel bitmask string consists of hexadecimal digits and commas and has at
  least one digit. \<open>hex_digits_from_end\<close> lists the values of the hexadecimal digits of a
  string, last digit first, all other characters left out. \<open>upto_last_xdigit\<close> is the
  string cut after its last hexadecimal digit, and \<open>digit_region\<close> is the part from the
  first to the last hexadecimal digit.
\<close>

definition well_formed_mask_string :: "string \<Rightarrow> bool" where
  "well_formed_mask_string buf \<longleftrightarrow>
     (\<forall>c\<in>set buf. isxdigit c \<or> c = CHR '','') \<and> (\<exists>c\<in>set buf. isxdigit c)"

definition hex_digits_from_end :: "string \<Rightarrow> nat list" where
  "hex_digits_from_end buf = map char_to_val (filter isxdigit (rev buf))"

definition upto_last_xdigit :: "string \<Rightarrow> string" where
  "upto_last_xdigit buf = rev (dropWhile (\<lambda>c. \<not> isxdigit c) (rev buf))"

definition digit_region :: "string \<Rightarrow> string" where
  "digit_region buf = dropWhile (\<lambda>c. \<not> isxdigit c) (upto_last_xdigit buf)"

section \<open>Formatting a mask (\<open>format_cpuset\<close> of the \<open>cpumasks\<close> tool)\<close>

text \<open>
  \<open>cpuset_to_uint\<close> collects the 32 bits of word number \<open>index\<close> of a mask into an
  \<open>unsigned int\<close>, adding \<open>1 << i\<close> for each bit that is set.
\<close>

definition cpuset_to_uint :: "cpu_set \<Rightarrow> nat \<Rightarrow> nat \<Rightarrow> 32 word" where
  "cpuset_to_uint cpumask sz index =
     fold (\<lambda>i ret. if CPU_ISSET_S (i + index * 32) sz cpumask then ret + push_bit i 1 else ret)
       [0..<32] 0"

text \<open>
  The two \<open>sprintf\<close> conversions of the C library that \<open>format_cpuset\<close> uses: \<open>%x\<close>
  prints an unsigned value in lower-case hexadecimal without leading zeros (\<open>0\<close> for
  zero), \<open>%08x\<close> pads the same text with zeros on the left to eight characters.
\<close>

definition hex_char :: "nat \<Rightarrow> char" where
  "hex_char d = ''0123456789abcdef'' ! d"

function to_hex :: "nat \<Rightarrow> string" where
  "to_hex n = (if n < 16 then [hex_char n] else to_hex (n div 16) @ [hex_char (n mod 16)])"
  by pat_completeness auto
termination
  by (relation "measure id") auto

definition sprintf_x :: "32 word \<Rightarrow> string" where
  "sprintf_x word = to_hex (unat word)"

definition sprintf_08x :: "32 word \<Rightarrow> string" where
  "sprintf_08x word = replicate (8 - length (sprintf_x word)) CHR ''0'' @ sprintf_x word"

text \<open>
  The loop \<open>while (nwords--)\<close> of \<open>format_cpuset\<close>: the first argument is the value of
  \<open>nwords\<close> before the test, \<open>buf\<close> is the text written so far. Leading zero words are
  skipped; the first non-zero word is printed with \<open>%x\<close>, every later word with
  \<open>%08x\<close>; a comma follows each printed word but the last when \<open>commas\<close> is non-zero.
\<close>

fun format_words :: "nat \<Rightarrow> cpu_set \<Rightarrow> nat \<Rightarrow> int \<Rightarrow> bool \<Rightarrow> string \<Rightarrow> bool \<times> string" where
  "format_words 0 cpumask cpuset_size commas nonzero_seen buf = (nonzero_seen, buf)"
| "format_words (Suc nwords) cpumask cpuset_size commas nonzero_seen buf =
     (let word = cpuset_to_uint cpumask cpuset_size nwords in
      if word = 0 \<and> \<not> nonzero_seen
      then format_words nwords cpumask cpuset_size commas nonzero_seen buf
      else
        let printed = (if word \<noteq> 0 \<and> \<not> nonzero_seen then buf @ sprintf_x word
                       else buf @ sprintf_08x word);
            buf' = (if nwords \<noteq> 0 \<and> commas \<noteq> 0 then printed @ '','' else printed)
        in format_words nwords cpumask cpuset_size commas True buf')"

definition format_cpuset :: "cpu_set \<Rightarrow> nat \<Rightarrow> int \<Rightarrow> string" where
  "format_cpuset cpumask cpuset_size commas =
     (let nwords = (if cpuset_size > 4 then cpuset_size div 4 else 1)
      in case format_words nwords cpumask cpuset_size commas False [] of
           (nonzero_seen, buf) \<Rightarrow> if \<not> nonzero_seen then buf @ ''0'' else buf)"

subsection \<open>Numeric reading of digit lists, used to relate the formatter and the parser\<close>

text \<open>
  \<open>digits_val\<close> is the number written by a list of hexadecimal digit values, least
  significant digit first; \<open>words_val\<close> is the number written by the first \<open>n\<close> 32-bit
  words of a mask, word 0 least significant.
\<close>

fun digits_val :: "nat list \<Rightarrow> nat" where
  "digits_val [] = 0"
| "digits_val (d # ds) = d + 16 * digits_val ds"

fun words_val :: "cpu_set \<Rightarrow> nat \<Rightarrow> nat \<Rightarrow> nat" where
  "words_val cpumask sz 0 = 0"
| "words_val cpumask sz (Suc n) =
     words_val cpumask sz n + 2 ^ (32 * n) * unat (cpuset_to_uint cpumask sz n)"

text \<open>The number written by the hexadecimal digits of a string, all other characters ignored.\<close>

definition mask_string_val :: "string \<Rightarrow> nat" where
  "mask_string_val buf = digits_val (hex_digits_from_end buf)"

text \<open>
  The state of the formatting loop is consistent when the text so far holds only digits and
  commas, holds a digit once a non-zero word has been seen, and is empty before that.
\<close>

definition format_state_ok :: "bool \<Rightarrow> string \<Rightarrow> bool" where
  "format_state_ok nonzero_seen buf \<longleftrightarrow>
     (\<forall>c\<in>set buf. isxdigit c \<or> c = CHR '','') \<and>
     (if nonzero_seen then \<exists>c\<in>set buf. isxdigit c else buf = [])"

section \<open>Core topology data structures (\<open>topology.c\<close>)\<close>

text \<open>
  Results. A function of the library that can stop the process (a failed \<open>assert\<close>), read
  through a pointer that addresses no object, or run forever returns an \<open>option\<close>: \<open>None\<close>
  stands for all three, \<open>Some\<close> carries what the function returns, with the C return code
  (0 or 1) as an \<open>int\<close> where the source has one. Failing memory allocation is not
  modelled: \<open>zmalloc\<close>, \<open>strdup\<close> and \<open>asprintf\<close> always succeed.
\<close>

definition TOPOLOGY_THREAD :: int where "TOPOLOGY_THREAD = 1"
definition TOPOLOGY_CORE :: int where "TOPOLOGY_CORE = 2"
definition TOPOLOGY_PACKAGE :: int where "TOPOLOGY_PACKAGE = 3"
definition TOPOLOGY_NODE :: int where "TOPOLOGY_NODE = 4"
definition TOPOLOGY_SYSTEM :: int where "TOPOLOGY_SYSTEM = 5"

lemmas topology_level_defs =
  TOPOLOGY_THREAD_def TOPOLOGY_CORE_def TOPOLOGY_PACKAGE_def TOPOLOGY_NODE_def
  TOPOLOGY_SYSTEM_def

subsection \<open>The hash table wrapper\<close>

text \<open>
  \<open>struct htable\<close> wraps the C library's \<open>hsearch_r\<close> table, created for \<open>maxsize\<close>
  entries. The table is the list of its entries in order of insertion. \<open>hsearch_r\<close> with
  \<open>ENTER\<close> keeps the existing entry when the key is present already, and has room for at
  least \<open>maxsize\<close> keys, so under the assertion of \<open>htable_insert\<close> it cannot fail.
\<close>

record 'a htable =
  count :: nat
  maxsize :: nat
  tbl :: "(string \<times> 'a) list"

definition htable_init :: "nat \<Rightarrow> 'a htable" where
  "htable_init maxsz = \<lparr>count = 0, maxsize = maxsz, tbl = []\<rparr>"

definition htable_full :: "'a htable \<Rightarrow> bool" where
  "htable_full htab \<longleftrightarrow> maxsize htab = count htab"

definition htable_insert :: "'a htable \<Rightarrow> string \<Rightarrow> 'a \<Rightarrow> (int \<times> 'a htable) option" where
  "htable_insert htab key data =
     (if \<not> count htab < maxsize htab then None
      else Some (0, htab\<lparr>count := count htab + 1,
                         tbl := (if key \<in> fst ` set (tbl htab) then tbl htab
                                 else tbl htab @ [(key, data)])\<rparr>))"

definition htable_lookup :: "'a htable \<Rightarrow> string \<Rightarrow> 'a option" where
  "htable_lookup htab key = map_of (tbl htab) key"

subsection \<open>Devices, processor entities and the context\<close>

text \<open>
  A device carries its attributes as a list of name and value pairs, newest first, as
  \<open>topo_device_attach_attr\<close> links them. The global device list of the context is the list
  \<open>devices\<close>, head first.
\<close>

record topo_device =
  dev_type :: string
  dev_hash_key :: "string option"
  dev_cpumask :: cpu_set
  dev_attrs :: "(string \<times> string) list"

text \<open>
  Processor entities live in the heap \<open>ents\<close> of the context; a pointer to an entity is its
  index there and \<open>None\<close> is the null pointer. An entity allocated later has a larger index.
\<close>

record topo_procent =
  level :: int
  ent_id :: int
  hash_key :: "string option"
  parent :: "nat option"
  children :: "nat option"
  sibling :: "nat option"
  next_ent :: "nat option"
  ent_cpumask :: cpu_set

record topo_context =
  sysfs_root :: string
  cpu_set_t_size :: nat
  ents :: "topo_procent list"
  ent_list :: "nat option"
  system :: "nat option"
  core_htable :: "nat htable"
  package_htable :: "nat htable"
  devices :: "topo_device list"
  device_htable :: "topo_device htable"

text \<open>Reading through a pointer: \<open>None\<close> when it addresses no entity of the context.\<close>

definition procent :: "topo_context \<Rightarrow> nat \<Rightarrow> topo_procent option" where
  "procent ctx p = (if p < length (ents ctx) then Some (ents ctx ! p) else None)"

subsection \<open>Traversal of the processor entity tree\<close>

definition level_valid :: "int \<Rightarrow> bool" where
  "level_valid l \<longleftrightarrow> TOPOLOGY_THREAD \<le> l \<and> l \<le> TOPOLOGY_SYSTEM"

partial_function (option) is_descendant :: "topo_context \<Rightarrow> nat \<Rightarrow> nat \<Rightarrow> bool option" where
  "is_descendant ctx from_ent ent =
     (case procent ctx ent of
        None \<Rightarrow> None
      | Some e \<Rightarrow>
          (case parent e of
             None \<Rightarrow> Some False
           | Some p \<Rightarrow> if p = from_ent then Some True else is_descendant ctx from_ent p))"

text \<open>The \<open>while (ent)\<close> loop of \<open>next_at_level\<close>, from the entity \<open>ent\<close> on.\<close>

partial_function (option) next_at_level_from ::
  "topo_context \<Rightarrow> nat \<Rightarrow> nat option \<Rightarrow> int \<Rightarrow> nat option option" where
  "next_at_level_from ctx par ent to =
     (case ent of
        None \<Rightarrow> Some None
      | Some e \<Rightarrow>
          (case procent ctx e of
             None \<Rightarrow> None
           | Some r \<Rightarrow>
               if level r = to
               then (case is_descendant ctx par e of
                       None \<Rightarrow> None
                     | Some d \<Rightarrow>
                         if d then Some (Some e)
                         else next_at_level_from ctx par (next_ent r) to)
               else next_at_level_from ctx par (next_ent r) to))"

definition next_at_level ::
  "topo_context \<Rightarrow> nat \<Rightarrow> nat option \<Rightarrow> int \<Rightarrow> nat option option" where
  "next_at_level ctx par iter to =
     (case iter of
        None \<Rightarrow> next_at_level_from ctx par (ent_list ctx) to
      | Some i \<Rightarrow>
          (case procent ctx i of
             None \<Rightarrow> None
           | Some r \<Rightarrow> next_at_level_from ctx par (next_ent r) to))"

partial_function (option) traverse ::
  "topo_context \<Rightarrow> nat option \<Rightarrow> nat option \<Rightarrow> int \<Rightarrow> nat option option" where
  "traverse ctx from_ent iter to =
     (if \<not> level_valid to then Some None
      else case from_ent of
        None \<Rightarrow> Some None
      | Some f \<Rightarrow>
          (case procent ctx f of
             None \<Rightarrow> None
           | Some fr \<Rightarrow>
               if to = level fr then Some None
               else if to = level fr + 1 then Some (parent fr)
               else if to = level fr - 1 then
                 (case iter of
                    Some i \<Rightarrow> (case procent ctx i of None \<Rightarrow> None | Some ir \<Rightarrow> Some (sibling ir))
                  | None \<Rightarrow> Some (children fr))
               else if to > level fr then traverse ctx (parent fr) None to
               else if to < level fr then next_at_level ctx f iter to
               else None))"

subsection \<open>Processor entity management\<close>

text \<open>
  \<open>alloc_init_topo_procent\<close>: the two assertions on the parent's level stop the process
  when they fail. The new entity gets the next free index, an all-zero mask, and is linked
  at the head of the global list and of its parent's children.
\<close>

definition alloc_init_topo_procent ::
  "topo_context \<Rightarrow> nat option \<Rightarrow> int \<Rightarrow> (nat \<times> topo_context) option" where
  "alloc_init_topo_procent ctx par ident =
     (case par of
        None \<Rightarrow>
          (let ent = length (ents ctx);
               new = \<lparr>level = TOPOLOGY_SYSTEM, ent_id = ident, hash_key = None, parent = None,
                      children = None, sibling = None, next_ent = ent_list ctx, ent_cpumask = {}\<rparr>
           in Some (ent, ctx\<lparr>ents := ents ctx @ [new], ent_list := Some ent\<rparr>))
      | Some p \<Rightarrow>
          (case procent ctx p of
             None \<Rightarrow> None
           | Some pr \<Rightarrow>
               if \<not> level_valid (level pr) \<or> level pr = TOPOLOGY_THREAD then None
               else
                 (let ent = length (ents ctx);
                      new = \<lparr>level = level pr - 1, ent_id = ident, hash_key = None,
                             parent = Some p, children = None, sibling = children pr,
                             next_ent = ent_list ctx, ent_cpumask = {}\<rparr>
                  in Some (ent, ctx\<lparr>ents := (ents ctx)[p := pr\<lparr>children := Some ent\<rparr>] @ [new],
                                      ent_list := Some ent\<rparr>))))"

text \<open>
  The bit argument of the mask accessors is converted to \<open>size_t\<close>; a negative \<open>int\<close>
  becomes a value of at least \<open>2 ^ 63\<close>.
\<close>

definition size_t_of_int :: "int \<Rightarrow> nat" where
  "size_t_of_int i = nat (i mod 2 ^ 64)"

partial_function (option) topo_procent_cpumask_set ::
  "topo_context \<Rightarrow> nat \<Rightarrow> int \<Rightarrow> topo_context option" where
  "topo_procent_cpumask_set ctx ent b =
     (case procent ctx ent of
        None \<Rightarrow> None
      | Some e \<Rightarrow>
          (let ctx' = ctx\<lparr>ents := (ents ctx)
                 [ent := e\<lparr>ent_cpumask :=
                    CPU_SET_S (size_t_of_int b) (cpu_set_t_size ctx) (ent_cpumask e)\<rparr>]\<rparr>
           in case parent e of
                None \<Rightarrow> Some ctx'
              | Some p \<Rightarrow> topo_procent_cpumask_set ctx' p b))"

text \<open>The recursive equations of the four pointer-chasing functions serve as code equations.\<close>

declare is_descendant.simps [code]
declare next_at_level_from.simps [code]
declare traverse.simps [code]
declare topo_procent_cpumask_set.simps [code]

section \<open>Reading sysfs\<close>

text \<open>
  The file system is a map from path names to files and directories. A file is its
  contents; a directory is the list of its entries in the order \<open>readdir64\<close> returns them,
  each with its \<open>d_type\<close>. Path names are the strings the source builds with \<open>snprintf\<close>
  (none of them is taken to exceed \<open>PATH_MAX\<close>).
\<close>

datatype d_type = DT_DIR | DT_UNKNOWN | DT_REG | DT_LNK

datatype fs_node = File string | Dir "(string \<times> d_type) list"

type_synonym filesystem = "string \<Rightarrow> fs_node option"

definition opendir :: "filesystem \<Rightarrow> string \<Rightarrow> (string \<times> d_type) list option" where
  "opendir fs path = (case fs path of Some (Dir entries) \<Rightarrow> Some entries | _ \<Rightarrow> None)"

text \<open>A buffer read as a C string ends at its first NUL character.\<close>

definition c_str :: "string \<Rightarrow> string" where
  "c_str buf = takeWhile (\<lambda>c. c \<noteq> CHR 0x00) buf"

text \<open>\<open>slurp_text_file\<close> (\<open>lib/helper.c\<close>): the whole file, NUL-terminated; NULL when it cannot be read.\<close>

definition slurp_text_file :: "filesystem \<Rightarrow> string \<Rightarrow> string option" where
  "slurp_text_file fs path = (case fs path of Some (File content) \<Rightarrow> Some (c_str content) | _ \<Rightarrow> None)"

text \<open>
  The \<open>%d\<close> conversions of the C library. \<open>sprintf_d\<close> prints an \<open>int\<close> in decimal.
  \<open>scan_d\<close> reads one: white space is skipped, a sign may follow, then at least one
  decimal digit is needed. The digits are converted as \<open>strtol\<close> does, to a 64-bit
  \<open>long\<close> that stops at \<open>LONG_MAX\<close> or \<open>LONG_MIN\<close> (\<open>strtol_range\<close>), and the \<open>long\<close> is
  stored in the 32-bit \<open>int\<close> the caller passed, which keeps its low 32 bits in two's
  complement (\<open>int_of_long\<close>): \<open>4294967296\<close> is read as 0 and \<open>4294967295\<close> as -1.
  \<open>sscanf_d prefix s\<close> is \<open>sscanf(s, "prefix%d", &n)\<close> for a prefix of ordinary
  characters: \<open>Some n\<close> when the call returns 1.
\<close>

function to_dec :: "nat \<Rightarrow> string" where
  "to_dec n = (if n < 10 then [hex_char n] else to_dec (n div 10) @ [hex_char (n mod 10)])"
  by pat_completeness auto
termination
  by (relation "measure id") auto

definition sprintf_d :: "int \<Rightarrow> string" where
  "sprintf_d n = (if n < 0 then CHR ''-'' # to_dec (nat (- n)) else to_dec (nat n))"

definition isspace :: "char \<Rightarrow> bool" where
  "isspace c \<longleftrightarrow> c \<in> {CHR '' '', CHR 0x09, CHR 0x0A, CHR 0x0B, CHR 0x0C, CHR 0x0D}"

definition isdigit :: "char \<Rightarrow> bool" where
  "isdigit c \<longleftrightarrow> c \<in> set ''0123456789''"

definition dec_val :: "string \<Rightarrow> int" where
  "dec_val ds = foldl (\<lambda>acc c. 10 * acc + (of_char c - 48)) 0 ds"

definition strtol_range :: "int \<Rightarrow> int" where
  "strtol_range v =
     (if v > 2 ^ 63 - 1 then 2 ^ 63 - 1 else if v < - (2 ^ 63) then - (2 ^ 63) else v)"

definition int_of_long :: "int \<Rightarrow> int" where
  "int_of_long v = (let w = v mod 2 ^ 32 in if w < 2 ^ 31 then w else w - 2 ^ 32)"

definition scan_d :: "string \<Rightarrow> int option" where
  "scan_d s =
     (let s1 = dropWhile isspace s;
          neg = (s1 \<noteq> [] \<and> hd s1 = CHR ''-'');
          s2 = (if s1 \<noteq> [] \<and> (hd s1 = CHR ''-'' \<or> hd s1 = CHR ''+'') then tl s1 else s1);
          ds = takeWhile isdigit s2
      in if ds = [] then None
         else Some (int_of_long (strtol_range
                (if neg then - dec_val ds else dec_val ds))))"

definition sscanf_d :: "string \<Rightarrow> string \<Rightarrow> int option" where
  "sscanf_d prefix s =
     (if take (length prefix) s = prefix then scan_d (drop (length prefix) s) else None)"

text \<open>
  \<open>sysfs_cpu_is_online\<close>: 1 when the \<open>online\<close> file is missing or holds no number, the
  number it holds otherwise.
\<close>

definition sysfs_cpu_is_online :: "filesystem \<Rightarrow> string \<Rightarrow> int \<Rightarrow> int" where
  "sysfs_cpu_is_online fs sysfs cpu =
     (case slurp_text_file fs (sysfs @ ''/devices/system/cpu/cpu'' @ sprintf_d cpu @ ''/online'') of
        None \<Rightarrow> 1
      | Some buf \<Rightarrow> (case scan_d buf of None \<Rightarrow> 1 | Some online \<Rightarrow> online))"

text \<open>The loop of \<open>sysfs_count_caches\<close> over the entries of the \<open>cache\<close> directory.\<close>

definition sysfs_count_caches :: "filesystem \<Rightarrow> string \<Rightarrow> int \<Rightarrow> nat" where
  "sysfs_count_caches fs sysfs cpu =
     (case opendir fs (sysfs @ ''/devices/system/cpu/cpu'' @ sprintf_d cpu @ ''/cache'') of
        None \<Rightarrow> 0
      | Some entries \<Rightarrow>
          length (filter (\<lambda>(d_name, t). (t = DT_DIR \<or> t = DT_UNKNOWN) \<and>
                                          sscanf_d ''index'' d_name \<noteq> None) entries))"

text \<open>
  \<open>sysfs_get_attr_value\<close> reads the first line of the file \<open>attr_path\<close> in the directory
  \<open>dir\<close> and cuts it at the newline; it returns NULL when the file cannot be opened or
  \<open>getline\<close> reads nothing. \<open>sysfs_get_attr\<close> pairs the value with the attribute's name.
\<close>

definition sysfs_get_attr_value :: "filesystem \<Rightarrow> string \<Rightarrow> string \<Rightarrow> string option" where
  "sysfs_get_attr_value fs dir attr_path =
     (case fs (dir @ ''/'' @ attr_path) of
        Some (File content) \<Rightarrow>
          if content = [] then None
          else Some (takeWhile (\<lambda>c. c \<noteq> CHR 0x0A) (c_str content))
      | _ \<Rightarrow> None)"

definition sysfs_get_attr :: "filesystem \<Rightarrow> string \<Rightarrow> string \<Rightarrow> (string \<times> string) option" where
  "sysfs_get_attr fs dir name =
     (case sysfs_get_attr_value fs dir name of
        None \<Rightarrow> None
      | Some v \<Rightarrow> Some (name, v))"

section \<open>Device management and cache discovery\<close>

definition alloc_topo_device :: "topo_context \<Rightarrow> string \<Rightarrow> topo_device" where
  "alloc_topo_device ctx type =
     \<lparr>dev_type = type, dev_hash_key = None, dev_cpumask = {}, dev_attrs = []\<rparr>"

definition topo_device_register :: "topo_context \<Rightarrow> topo_device \<Rightarrow> topo_context" where
  "topo_device_register ctx dev = ctx\<lparr>devices := dev # devices ctx\<rparr>"

definition topo_device_attach_attr :: "topo_device \<Rightarrow> string \<times> string \<Rightarrow> topo_device" where
  "topo_device_attach_attr dev attr = dev\<lparr>dev_attrs := attr # dev_attrs dev\<rparr>"

definition topo_device_get_attr_value :: "topo_device \<Rightarrow> string \<Rightarrow> string option" where
  "topo_device_get_attr_value dev name = map_of (dev_attrs dev) name"

text \<open>
  \<open>hash_device\<close>: a full table is replaced by one of twice the size into which every
  registered device is entered again (the loop \<open>rehash\<close>), then the new device is entered.
\<close>

fun rehash :: "topo_device htable \<Rightarrow> topo_device list \<Rightarrow> (int \<times> topo_device htable) option" where
  "rehash htab [] = Some (0, htab)"
| "rehash htab (iter # rest) =
     (case dev_hash_key iter of
        None \<Rightarrow> None
      | Some key \<Rightarrow>
          (case htable_insert htab key iter of
             None \<Rightarrow> None
           | Some (rc, htab') \<Rightarrow> if rc \<noteq> 0 then Some (1, htab') else rehash htab' rest))"

definition hash_device :: "topo_context \<Rightarrow> topo_device \<Rightarrow> (int \<times> topo_context) option" where
  "hash_device ctx dev =
     (case dev_hash_key dev of
        None \<Rightarrow> None
      | Some key \<Rightarrow>
          if \<not> htable_full (device_htable ctx)
          then (case htable_insert (device_htable ctx) key dev of
                  None \<Rightarrow> None
                | Some (rc, htab) \<Rightarrow> Some (rc, ctx\<lparr>device_htable := htab\<rparr>))
          else
            (let newsize = maxsize (device_htable ctx) * 2
             in case rehash (htable_init newsize) (devices ctx) of
                  None \<Rightarrow> None
                | Some (rc, htab) \<Rightarrow>
                    if rc \<noteq> 0 then Some (1, ctx\<lparr>device_htable := htab\<rparr>)
                    else (case htable_insert htab key dev of
                            None \<Rightarrow> None
                          | Some (rc', htab') \<Rightarrow> Some (rc', ctx\<lparr>device_htable := htab'\<rparr>))))"

text \<open>
  \<open>__get_cache_info\<close> fills the attributes and the mask of a fresh cache device from the
  directory \<open>index<index>\<close> of the CPU. It returns 1 as soon as the directory or one of the
  four attributes is missing, the shared map does not parse, or the CPU is not in the map.
\<close>

definition get_cache_info_index ::
  "filesystem \<Rightarrow> topo_context \<Rightarrow> topo_device \<Rightarrow> int \<Rightarrow> int \<Rightarrow> int \<times> topo_device" where
  "get_cache_info_index fs ctx cache cpu index =
     (let cpumask_size = cpu_set_t_size ctx;
          path = sysfs_root ctx @ ''/devices/system/cpu/cpu'' @ sprintf_d cpu @
                 ''/cache/index'' @ sprintf_d index
      in case opendir fs path of
           None \<Rightarrow> (1, cache)
         | Some dir \<Rightarrow>
      (case sysfs_get_attr fs path ''size'' of
           None \<Rightarrow> (1, cache)
         | Some a1 \<Rightarrow>
      (let cache1 = topo_device_attach_attr cache a1
       in case sysfs_get_attr fs path ''type'' of
           None \<Rightarrow> (1, cache1)
         | Some a2 \<Rightarrow>
      (let cache2 = topo_device_attach_attr cache1 a2
       in case sysfs_get_attr fs path ''level'' of
           None \<Rightarrow> (1, cache2)
         | Some a3 \<Rightarrow>
      (let cache3 = topo_device_attach_attr cache2 a3
       in case sysfs_get_attr fs path ''shared_cpu_map'' of
           None \<Rightarrow> (1, cache3)
         | Some a4 \<Rightarrow>
      (let cache4 = topo_device_attach_attr cache3 a4;
           parsed = topology_cpumask_parse (dev_cpumask cache4) cpumask_size (snd a4);
           cache5 = cache4\<lparr>dev_cpumask := snd parsed\<rparr>
       in if fst parsed \<noteq> 0 then (1, cache5)
          else if \<not> CPU_ISSET_S (size_t_of_int cpu) cpumask_size (dev_cpumask cache5)
          then (1, cache5)
          else (0, cache5)))))))"

definition cache_build_hash :: "topo_device \<Rightarrow> int \<times> topo_device" where
  "cache_build_hash cache =
     (case (topo_device_get_attr_value cache ''level'',
            topo_device_get_attr_value cache ''type'',
            topo_device_get_attr_value cache ''shared_cpu_map'') of
        (Some lvl, Some type, Some cpus) \<Rightarrow>
          (0, cache\<lparr>dev_hash_key := Some (''cache-L'' @ lvl @ ''-'' @ type @ ''-'' @ cpus)\<rparr>)
      | _ \<Rightarrow> (1, cache))"

text \<open>
  The loop \<open>for (index = 0; index < nr_caches; index++)\<close> of \<open>get_cache_info\<close>: the first
  numeric argument counts the iterations left, the second is \<open>index\<close>. Every \<open>goto err\<close>
  releases the cache at hand and makes the function return 1 at once; a cache whose key is
  in the device table already is released and the loop goes on.
\<close>

fun get_cache_info_loop ::
  "filesystem \<Rightarrow> topo_context \<Rightarrow> int \<Rightarrow> nat \<Rightarrow> nat \<Rightarrow> (int \<times> topo_context) option" where
  "get_cache_info_loop fs ctx cpu 0 index = Some (0, ctx)"
| "get_cache_info_loop fs ctx cpu (Suc n) index =
     (let cache = alloc_topo_device ctx ''cache''
      in case get_cache_info_index fs ctx cache cpu (int index) of
           (rc, cache1) \<Rightarrow>
             if rc \<noteq> 0 then Some (1, ctx)
             else (case cache_build_hash cache1 of
                     (rc2, cache2) \<Rightarrow>
                       if rc2 \<noteq> 0 then Some (1, ctx)
                       else (case dev_hash_key cache2 of
                               None \<Rightarrow> None
                             | Some key \<Rightarrow>
                                 if htable_lookup (device_htable ctx) key \<noteq> None
                                 then get_cache_info_loop fs ctx cpu n (Suc index)
                                 else (case hash_device ctx cache2 of
                                         None \<Rightarrow> None
                                       | Some (rc3, ctx') \<Rightarrow>
                                           if rc3 \<noteq> 0 then Some (1, ctx')
                                           else get_cache_info_loop fs
                                                  (topo_device_register ctx' cache2) cpu n
                                                  (Suc index)))))"

definition get_cache_info :: "filesystem \<Rightarrow> topo_context \<Rightarrow> nat \<Rightarrow> (int \<times> topo_context) option" where
  "get_cache_info fs ctx thread =
     (case procent ctx thread of
        None \<Rightarrow> None
      | Some t \<Rightarrow>
          (let nr_caches = sysfs_count_caches fs (sysfs_root ctx) (ent_id t)
           in if nr_caches = 0 then Some (0, ctx)
              else get_cache_info_loop fs ctx (ent_id t) nr_caches 0))"

section \<open>Building the context\<close>

definition sysfs_cpu_thread_siblings :: "filesystem \<Rightarrow> string \<Rightarrow> int \<Rightarrow> string" where
  "sysfs_cpu_thread_siblings fs sysfs cpu_id =
     (case slurp_text_file fs
             (sysfs @ ''/devices/system/cpu/cpu'' @ sprintf_d cpu_id @ ''/topology/thread_siblings'') of
        Some buf \<Rightarrow> buf
      | None \<Rightarrow> sprintf_d cpu_id)"

definition sysfs_cpu_core_siblings :: "filesystem \<Rightarrow> string \<Rightarrow> int \<Rightarrow> string" where
  "sysfs_cpu_core_siblings fs sysfs cpu_id =
     (case slurp_text_file fs
             (sysfs @ ''/devices/system/cpu/cpu'' @ sprintf_d cpu_id @ ''/topology/core_siblings'') of
        Some buf \<Rightarrow> buf
      | None \<Rightarrow> sysfs_cpu_thread_siblings fs sysfs cpu_id)"

text \<open>Storing the key of a package or core: \<open>ent->hash_key = strdup(siblings)\<close>.\<close>

definition set_hash_key :: "topo_context \<Rightarrow> nat \<Rightarrow> string \<Rightarrow> topo_context" where
  "set_hash_key ctx ent key = ctx\<lparr>ents := (ents ctx)[ent := (ents ctx ! ent)\<lparr>hash_key := Some key\<rparr>]\<rparr>"

text \<open>
  The two look-up-or-create steps of \<open>do_one_cpu\<close>. Each returns the entity found or
  created; a non-zero return code is the \<open>goto err\<close> after a failed insertion.
\<close>

definition find_or_add_package ::
  "topo_context \<Rightarrow> nat \<Rightarrow> int \<Rightarrow> string \<Rightarrow> (int \<times> nat \<times> topo_context) option" where
  "find_or_add_package ctx node cpu_id siblings =
     (case htable_lookup (package_htable ctx) siblings of
        Some pkg \<Rightarrow> Some (0, pkg, ctx)
      | None \<Rightarrow>
          (case alloc_init_topo_procent ctx (Some node) cpu_id of
             None \<Rightarrow> None
           | Some (pkg, ctx1) \<Rightarrow>
               (let ctx2 = set_hash_key ctx1 pkg siblings
                in case htable_insert (package_htable ctx2) siblings pkg of
                     None \<Rightarrow> None
                   | Some (rc, htab) \<Rightarrow> Some (rc, pkg, ctx2\<lparr>package_htable := htab\<rparr>))))"

definition find_or_add_core ::
  "topo_context \<Rightarrow> nat \<Rightarrow> int \<Rightarrow> string \<Rightarrow> (int \<times> nat \<times> topo_context) option" where
  "find_or_add_core ctx pkg cpu_id siblings =
     (case htable_lookup (core_htable ctx) siblings of
        Some core \<Rightarrow> Some (0, core, ctx)
      | None \<Rightarrow>
          (case alloc_init_topo_procent ctx (Some pkg) cpu_id of
             None \<Rightarrow> None
           | Some (core, ctx1) \<Rightarrow>
               (let ctx2 = set_hash_key ctx1 core siblings
                in case htable_insert (core_htable ctx2) siblings core of
                     None \<Rightarrow> None
                   | Some (rc, htab) \<Rightarrow> Some (rc, core, ctx2\<lparr>core_htable := htab\<rparr>))))"

text \<open>
  \<open>do_one_cpu\<close>: package, core, thread, the thread's bit set up the parent chain, then the
  caches, whose return code is ignored.
\<close>

definition do_one_cpu :: "filesystem \<Rightarrow> topo_context \<Rightarrow> nat \<Rightarrow> int \<Rightarrow> (int \<times> topo_context) option" where
  "do_one_cpu fs ctx node cpu_id =
     (case find_or_add_package ctx node cpu_id
             (sysfs_cpu_core_siblings fs (sysfs_root ctx) cpu_id) of
        None \<Rightarrow> None
      | Some (rc, pkg, ctx1) \<Rightarrow>
          if rc \<noteq> 0 then Some (1, ctx1)
          else
     (case find_or_add_core ctx1 pkg cpu_id
             (sysfs_cpu_thread_siblings fs (sysfs_root ctx1) cpu_id) of
        None \<Rightarrow> None
      | Some (rc2, core, ctx2) \<Rightarrow>
          if rc2 \<noteq> 0 then Some (1, ctx2)
          else
     (case alloc_init_topo_procent ctx2 (Some core) cpu_id of
        None \<Rightarrow> None
      | Some (thread, ctx3) \<Rightarrow>
     (case topo_procent_cpumask_set ctx3 thread cpu_id of
        None \<Rightarrow> None
      | Some ctx4 \<Rightarrow>
     (case get_cache_info fs ctx4 thread of
        None \<Rightarrow> None
      | Some (rc5, ctx5) \<Rightarrow> Some (0, ctx5))))))"

text \<open>The \<open>readdir64\<close> loop of \<open>do_node_cpus\<close> over the entries of the directory.\<close>

fun node_cpus_loop ::
  "filesystem \<Rightarrow> topo_context \<Rightarrow> nat \<Rightarrow> (string \<times> d_type) list \<Rightarrow> (int \<times> topo_context) option" where
  "node_cpus_loop fs ctx node [] = Some (0, ctx)"
| "node_cpus_loop fs ctx node ((d_name, t) # rest) =
     (case sscanf_d ''cpu'' d_name of
        None \<Rightarrow> node_cpus_loop fs ctx node rest
      | Some cpu_id \<Rightarrow>
          if sysfs_cpu_is_online fs (sysfs_root ctx) cpu_id = 0
          then node_cpus_loop fs ctx node rest
          else (case do_one_cpu fs ctx node cpu_id of
                  None \<Rightarrow> None
                | Some (rc, ctx') \<Rightarrow>
                    if rc \<noteq> 0 then Some (1, ctx') else node_cpus_loop fs ctx' node rest))"

definition do_node_cpus :: "filesystem \<Rightarrow> topo_context \<Rightarrow> nat \<Rightarrow> (int \<times> topo_context) option" where
  "do_node_cpus fs ctx node =
     (case procent ctx node of
        None \<Rightarrow> None
      | Some n \<Rightarrow>
          (case opendir fs (sysfs_root ctx @ ''/devices/system/node/node'' @ sprintf_d (ent_id n)) of
             Some dir \<Rightarrow> node_cpus_loop fs ctx node dir
           | None \<Rightarrow>
               if ent_id n \<noteq> 0 then Some (1, ctx)
               else (case opendir fs (sysfs_root ctx @ ''/devices/system/cpu'') of
                       None \<Rightarrow> Some (1, ctx)
                     | Some dir \<Rightarrow> node_cpus_loop fs ctx node dir)))"

definition do_one_node :: "filesystem \<Rightarrow> topo_context \<Rightarrow> nat \<Rightarrow> int \<Rightarrow> (int \<times> topo_context) option" where
  "do_one_node fs ctx sys nid =
     (case alloc_init_topo_procent ctx (Some sys) nid of
        None \<Rightarrow> None
      | Some (node, ctx') \<Rightarrow> do_node_cpus fs ctx' node)"

text \<open>The \<open>readdir64\<close> loop of \<open>build_context\<close> over the entries of \<open>devices/system/node\<close>.\<close>

fun nodes_loop ::
  "filesystem \<Rightarrow> topo_context \<Rightarrow> nat \<Rightarrow> (string \<times> d_type) list \<Rightarrow> (int \<times> topo_context) option" where
  "nodes_loop fs ctx sys [] = Some (0, ctx)"
| "nodes_loop fs ctx sys ((d_name, t) # rest) =
     (if t \<noteq> DT_DIR \<and> t \<noteq> DT_UNKNOWN then nodes_loop fs ctx sys rest
      else case sscanf_d ''node'' d_name of
             None \<Rightarrow> nodes_loop fs ctx sys rest
           | Some node_id \<Rightarrow>
               (case do_one_node fs ctx sys node_id of
                  None \<Rightarrow> None
                | Some (rc, ctx') \<Rightarrow>
                    if rc \<noteq> 0 then Some (1, ctx') else nodes_loop fs ctx' sys rest))"

definition build_context :: "filesystem \<Rightarrow> topo_context \<Rightarrow> (int \<times> topo_context) option" where
  "build_context fs ctx =
     (case alloc_init_topo_procent ctx None 0 of
        None \<Rightarrow> None
      | Some (sys, ctx0) \<Rightarrow>
          (let ctx1 = ctx0\<lparr>system := Some sys\<rparr>
           in case opendir fs (sysfs_root ctx1 @ ''/devices/system/node'') of
                None \<Rightarrow> do_one_node fs ctx1 sys 0
              | Some dir \<Rightarrow> nodes_loop fs ctx1 sys dir))"

text \<open>
  The context as \<open>new_context\<close> hands it to \<open>build_context\<close>: zeroed, with the sysfs root,
  the probed mask width, the package and core tables sized to the number of mask bits and
  the device table of size 2.
\<close>

definition new_context_init :: "string \<Rightarrow> nat \<Rightarrow> topo_context" where
  "new_context_init root sz =
     \<lparr>sysfs_root = root, cpu_set_t_size = sz, ents = [], ent_list = None, system = None,
      core_htable = htable_init (sz * 8), package_htable = htable_init (sz * 8),
      devices = [], device_htable = htable_init 2\<rparr>"

text \<open>
  \<open>new_context\<close> after the probe of the mask width \<open>sz\<close> (which is not zero): the built
  context when \<open>build_context\<close> returns 0, NULL otherwise.
\<close>

definition new_context :: "filesystem \<Rightarrow> string \<Rightarrow> nat \<Rightarrow> topo_context option option" where
  "new_context fs root sz =
     (case build_context fs (new_context_init root sz) of
        None \<Rightarrow> None
      | Some (rc, ctx) \<Rightarrow> if rc \<noteq> 0 then Some None else Some (Some ctx))"

section \<open>Well-formed contexts\<close>

text \<open>
  \<open>ents_ok\<close>: every entity has a valid level; an entity without a parent is at the system
  level; a parent was allocated before its child and is one level above it.
\<close>

definition ents_ok :: "topo_context \<Rightarrow> bool" where
  "ents_ok ctx \<longleftrightarrow>
     (\<forall>i<length (ents ctx).
        level_valid (level (ents ctx ! i)) \<and>
        (case parent (ents ctx ! i) of
           None \<Rightarrow> level (ents ctx ! i) = TOPOLOGY_SYSTEM
         | Some p \<Rightarrow> p < i \<and> level (ents ctx ! p) = level (ents ctx ! i) + 1))"

text \<open>
  \<open>ents_extend ctx ctx'\<close>: the heap of \<open>ctx'\<close> has the entities of \<open>ctx\<close>, with the same
  level, parent and id, and possibly more.
\<close>

definition ents_extend :: "topo_context \<Rightarrow> topo_context \<Rightarrow> bool" where
  "ents_extend ctx ctx' \<longleftrightarrow>
     length (ents ctx) \<le> length (ents ctx') \<and>
     (\<forall>i<length (ents ctx).
        level (ents ctx' ! i) = level (ents ctx ! i) \<and>
        parent (ents ctx' ! i) = parent (ents ctx ! i) \<and>
        ent_id (ents ctx' ! i) = ent_id (ents ctx ! i))"

text \<open>
  The direct children of an entity are the entities whose parent pointer addresses it;
  \<open>child_masks\<close> is the union of their masks.
\<close>

definition children_of :: "topo_procent list \<Rightarrow> nat \<Rightarrow> nat list" where
  "children_of es i = filter (\<lambda>c. parent (es ! c) = Some i) [0..<length es]"

definition child_masks :: "topo_procent list \<Rightarrow> nat \<Rightarrow> cpu_set" where
  "child_masks es i = \<Union> (set (map (\<lambda>c. ent_cpumask (es ! c)) (children_of es i)))"

definition masks_ok :: "topo_context \<Rightarrow> bool" where
  "masks_ok ctx \<longleftrightarrow>
     (\<forall>i<length (ents ctx).
        level (ents ctx ! i) \<noteq> TOPOLOGY_THREAD \<longrightarrow>
        ent_cpumask (ents ctx ! i) = child_masks (ents ctx) i)"

text \<open>
  \<open>on_parent_chain es t i\<close>: following parent pointers from entity \<open>t\<close> reaches entity \<open>i\<close>
  (in zero or more steps). These are the entities \<open>topo_procent_cpumask_set\<close> visits when
  called on \<open>t\<close>.
\<close>

inductive on_parent_chain :: "topo_procent list \<Rightarrow> nat \<Rightarrow> nat \<Rightarrow> bool" for es t where
  chain_self: "on_parent_chain es t t"
| chain_step: "on_parent_chain es t i \<Longrightarrow> i < length es \<Longrightarrow> parent (es ! i) = Some p \<Longrightarrow>
     on_parent_chain es t p"

text \<open>
  \<open>bits_ok\<close>: every bit set in the mask of an entity is the CPU id of a thread entity from
  which the entity is reached along parent pointers.
\<close>

definition bits_ok :: "topo_context \<Rightarrow> bool" where
  "bits_ok ctx \<longleftrightarrow>
     (\<forall>i<length (ents ctx). \<forall>b\<in>ent_cpumask (ents ctx ! i).
        \<exists>t<length (ents ctx).
          level (ents ctx ! t) = TOPOLOGY_THREAD \<and>
          b = size_t_of_int (ent_id (ents ctx ! t)) \<and>
          on_parent_chain (ents ctx) t i)"

text \<open>\<open>tables_ok\<close>: the package table holds package entities, the core table core entities.\<close>

definition tables_ok :: "topo_context \<Rightarrow> bool" where
  "tables_ok ctx \<longleftrightarrow>
     (\<forall>(k, p)\<in>set (tbl (package_htable ctx)).
        p < length (ents ctx) \<and> level (ents ctx ! p) = TOPOLOGY_PACKAGE) \<and>
     (\<forall>(k, c)\<in>set (tbl (core_htable ctx)).
        c < length (ents ctx) \<and> level (ents ctx ! c) = TOPOLOGY_CORE)"

text \<open>
  The heap after \<open>topo_procent_cpumask_set\<close> was called on entity \<open>t\<close> with bit \<open>b\<close>: the
  bit is set (by \<open>CPU_SET_S\<close>) in the masks of the entities on the parent chain of \<open>t\<close>.
\<close>

definition set_chain_bit :: "topo_context \<Rightarrow> nat \<Rightarrow> int \<Rightarrow> topo_procent list" where
  "set_chain_bit ctx t b =
     map (\<lambda>i. if on_parent_chain (ents ctx) t i
              then (ents ctx ! i)\<lparr>ent_cpumask :=
                     CPU_SET_S (size_t_of_int b) (cpu_set_t_size ctx) (ent_cpumask (ents ctx ! i))\<rparr>
              else ents ctx ! i)
       [0..<length (ents ctx)]"

text \<open>The invariant of the entity heap that the build maintains.\<close>

definition heap_inv :: "topo_context \<Rightarrow> bool" where
  "heap_inv ctx \<longleftrightarrow> ents_ok ctx \<and> masks_ok ctx \<and> bits_ok ctx \<and> tables_ok ctx"

text \<open>
  The attribute triple that identifies a cache, and the key \<open>cache_build_hash\<close> makes of
  it. \<open>devices_ok\<close>: the registered devices have pairwise different keys, each key is the
  one made of the device's attributes, and each key is in the device table.
\<close>

definition cache_triple :: "topo_device \<Rightarrow> string option \<times> string option \<times> string option" where
  "cache_triple d =
     (topo_device_get_attr_value d ''level'', topo_device_get_attr_value d ''type'',
      topo_device_get_attr_value d ''shared_cpu_map'')"

definition triple_key :: "string option \<times> string option \<times> string option \<Rightarrow> string option" where
  "triple_key tr =
     (case tr of
        (Some lvl, Some type, Some cpus) \<Rightarrow> Some (''cache-L'' @ lvl @ ''-'' @ type @ ''-'' @ cpus)
      | _ \<Rightarrow> None)"

definition devices_ok :: "topo_context \<Rightarrow> bool" where
  "devices_ok ctx \<longleftrightarrow>
     distinct (map dev_hash_key (devices ctx)) \<and>
     (\<forall>d\<in>set (devices ctx).
        \<exists>k. dev_hash_key d = Some k \<and> triple_key (cache_triple d) = Some k \<and>
            htable_lookup (device_htable ctx) k \<noteq> None)"

text \<open>\<open>heap_same ctx ctx'\<close>: the two contexts differ at most in their devices and device table.\<close>

definition heap_same :: "topo_context \<Rightarrow> topo_context \<Rightarrow> bool" where
  "heap_same ctx ctx' \<longleftrightarrow>
     ents ctx' = ents ctx \<and> ent_list ctx' = ent_list ctx \<and> system ctx' = system ctx \<and>
     package_htable ctx' = package_htable ctx \<and> core_htable ctx' = core_htable ctx \<and>
     sysfs_root ctx' = sysfs_root ctx \<and> cpu_set_t_size ctx' = cpu_set_t_size ctx"

text \<open>The invariant of the whole build: the entity heap and the devices.\<close>

definition build_inv :: "topo_context \<Rightarrow> bool" where
  "build_inv ctx \<longleftrightarrow> heap_inv ctx \<and> devices_ok ctx"

text \<open>\<open>masks_only ctx ctx'\<close>: the two contexts differ at most in the masks of their entities.\<close>

definition masks_only :: "topo_context \<Rightarrow> topo_context \<Rightarrow> bool" where
  "masks_only ctx ctx' \<longleftrightarrow>
     length (ents ctx') = length (ents ctx) \<and>
     (\<forall>i. level (ents ctx' ! i) = level (ents ctx ! i) \<and>
          parent (ents ctx' ! i) = parent (ents ctx ! i) \<and>
          ent_id (ents ctx' ! i) = ent_id (ents ctx ! i) \<and>
          hash_key (ents ctx' ! i) = hash_key (ents ctx ! i)) \<and>
     ent_list ctx' = ent_list ctx \<and> system ctx' = system ctx \<and>
     package_htable ctx' = package_htable ctx \<and> core_htable ctx' = core_htable ctx \<and>
     sysfs_root ctx' = sysfs_root ctx \<and> cpu_set_t_size ctx' = cpu_set_t_size ctx \<and>
     devices ctx' = devices ctx \<and> device_htable ctx' = device_htable ctx"

text \<open>
  \<open>threads_ok\<close>: the parent of every thread entity is the entity the core table holds
  under the \<open>thread_siblings\<close> string of the thread's CPU, and the package table has an
  entry under the string \<open>sysfs_cpu_core_siblings\<close> returns for that CPU.
\<close>

definition threads_ok :: "filesystem \<Rightarrow> topo_context \<Rightarrow> bool" where
  "threads_ok fs ctx \<longleftrightarrow>
     (\<forall>t<length (ents ctx).
        level (ents ctx ! t) = TOPOLOGY_THREAD \<longrightarrow>
        parent (ents ctx ! t) \<noteq> None \<and>
        parent (ents ctx ! t) =
          htable_lookup (core_htable ctx)
            (sysfs_cpu_thread_siblings fs (sysfs_root ctx) (ent_id (ents ctx ! t))) \<and>
        htable_lookup (package_htable ctx)
          (sysfs_cpu_core_siblings fs (sysfs_root ctx) (ent_id (ents ctx ! t))) \<noteq> None)"

text \<open>
  \<open>cores_ok\<close>: every core entity is a child of the entity the package table holds under
  the string \<open>sysfs_cpu_core_siblings\<close> returns for the CPU whose id the core carries,
  and it is the entity the core table holds under the \<open>thread_siblings\<close> string of that
  CPU. \<open>signatures_ok\<close> is both.
\<close>

definition cores_ok :: "filesystem \<Rightarrow> topo_context \<Rightarrow> bool" where
  "cores_ok fs ctx \<longleftrightarrow>
     (\<forall>c<length (ents ctx).
        level (ents ctx ! c) = TOPOLOGY_CORE \<longrightarrow>
        parent (ents ctx ! c) \<noteq> None \<and>
        parent (ents ctx ! c) =
          htable_lookup (package_htable ctx)
            (sysfs_cpu_core_siblings fs (sysfs_root ctx) (ent_id (ents ctx ! c))) \<and>
        htable_lookup (core_htable ctx)
          (sysfs_cpu_thread_siblings fs (sysfs_root ctx) (ent_id (ents ctx ! c))) = Some c)"

definition signatures_ok :: "filesystem \<Rightarrow> topo_context \<Rightarrow> bool" where
  "signatures_ok fs ctx \<longleftrightarrow> threads_ok fs ctx \<and> cores_ok fs ctx"

section \<open>Example sysfs trees\<close>

text \<open>
  Small sysfs trees in the style of the fake trees of the repository's tests, used to run
  the model. All of them are rooted at \<open>/sys\<close> and have no \<open>node\<close> directory, so the build
  fakes node 0.

  \<open>fs_shared_core\<close>: two CPUs with different \<open>core_siblings\<close> and equal \<open>thread_siblings\<close>.
\<close>

definition fs_shared_core :: filesystem where
  "fs_shared_core = map_of
     [(''/sys/devices/system/cpu'', Dir [(''cpu0'', DT_DIR), (''cpu1'', DT_DIR)]),
      (''/sys/devices/system/cpu/cpu0/topology/core_siblings'', File ''1''),
      (''/sys/devices/system/cpu/cpu0/topology/thread_siblings'', File ''3''),
      (''/sys/devices/system/cpu/cpu1/topology/core_siblings'', File ''2''),
      (''/sys/devices/system/cpu/cpu1/topology/thread_siblings'', File ''3'')]"

definition ctx_shared_core :: topo_context where
  "ctx_shared_core = the (the (new_context fs_shared_core ''/sys'' 8))"

text \<open>
  \<open>fs_shared_cache\<close>: two CPUs, each with its own level 1 data cache and both sharing one
  level 2 cache, which is listed in the directory of either CPU.
\<close>

definition fs_shared_cache :: filesystem where
  "fs_shared_cache = map_of
     [(''/sys/devices/system/cpu'', Dir [(''cpu0'', DT_DIR), (''cpu1'', DT_DIR)]),
      (''/sys/devices/system/cpu/cpu0/topology/core_siblings'', File ''3''),
      (''/sys/devices/system/cpu/cpu0/topology/thread_siblings'', File ''1''),
      (''/sys/devices/system/cpu/cpu0/cache'', Dir [(''index0'', DT_DIR), (''index1'', DT_DIR)]),
      (''/sys/devices/system/cpu/cpu0/cache/index0'', Dir [(''size'', DT_REG), (''type'', DT_REG), (''level'', DT_REG), (''shared_cpu_map'', DT_REG)]),
      (''/sys/devices/system/cpu/cpu0/cache/index0/size'', File ''32K''),
      (''/sys/devices/system/cpu/cpu0/cache/index0/type'', File ''Data''),
      (''/sys/devices/system/cpu/cpu0/cache/index0/level'', File ''1''),
      (''/sys/devices/system/cpu/cpu0/cache/index0/shared_cpu_map'', File ''1''),
      (''/sys/devices/system/cpu/cpu0/cache/index1'', Dir [(''size'', DT_REG), (''type'', DT_REG), (''level'', DT_REG), (''shared_cpu_map'', DT_REG)]),
      (''/sys/devices/system/cpu/cpu0/cache/index1/size'', File ''2048K''),
      (''/sys/devices/system/cpu/cpu0/cache/index1/type'', File ''Unified''),
      (''/sys/devices/system/cpu/cpu0/cache/index1/level'', File ''2''),
      (''/sys/devices/system/cpu/cpu0/cache/index1/shared_cpu_map'', File ''3''),
      (''/sys/devices/system/cpu/cpu1/topology/core_siblings'', File ''3''),
      (''/sys/devices/system/cpu/cpu1/topology/thread_siblings'', File ''2''),
      (''/sys/devices/system/cpu/cpu1/cache'', Dir [(''index0'', DT_DIR), (''index1'', DT_DIR)]),
      (''/sys/devices/system/cpu/cpu1/cache/index0'', Dir [(''size'', DT_REG), (''type'', DT_REG), (''level'', DT_REG), (''shared_cpu_map'', DT_REG)]),
      (''/sys/devices/system/cpu/cpu1/cache/index0/size'', File ''32K''),
      (''/sys/devices/system/cpu/cpu1/cache/index0/type'', File ''Data''),
      (''/sys/devices/system/cpu/cpu1/cache/index0/level'', File ''1''),
      (''/sys/devices/system/cpu/cpu1/cache/index0/shared_cpu_map'', File ''2''),
      (''/sys/devices/system/cpu/cpu1/cache/index1'', Dir [(''size'', DT_REG), (''type'', DT_REG), (''level'', DT_REG), (''shared_cpu_map'', DT_REG)]),
      (''/sys/devices/system/cpu/cpu1/cache/index1/size'', File ''2048K''),
      (''/sys/devices/system/cpu/cpu1/cache/index1/type'', File ''Unified''),
      (''/sys/devices/system/cpu/cpu1/cache/index1/level'', File ''2''),
      (''/sys/devices/system/cpu/cpu1/cache/index1/shared_cpu_map'', File ''3'')]"

definition ctx_shared_cache :: topo_context where
  "ctx_shared_cache = the (the (new_context fs_shared_cache ''/sys'' 8))"

text \<open>
  \<open>fs_cache_gap\<close>: one CPU with two cache index directories; \<open>index0\<close> has no \<open>size\<close>
  attribute, \<open>index1\<close> has all four attributes.
\<close>

definition fs_cache_gap :: filesystem where
  "fs_cache_gap = map_of
     [(''/sys/devices/system/cpu'', Dir [(''cpu0'', DT_DIR)]),
      (''/sys/devices/system/cpu/cpu0/topology/core_siblings'', File ''1''),
      (''/sys/devices/system/cpu/cpu0/topology/thread_siblings'', File ''1''),
      (''/sys/devices/system/cpu/cpu0/cache'', Dir [(''index0'', DT_DIR), (''index1'', DT_DIR)]),
      (''/sys/devices/system/cpu/cpu0/cache/index0'', Dir [(''type'', DT_REG), (''level'', DT_REG), (''shared_cpu_map'', DT_REG)]),
      (''/sys/devices/system/cpu/cpu0/cache/index0/type'', File ''Data''),
      (''/sys/devices/system/cpu/cpu0/cache/index0/level'', File ''1''),
      (''/sys/devices/system/cpu/cpu0/cache/index0/shared_cpu_map'', File ''1''),
      (''/sys/devices/system/cpu/cpu0/cache/index1'', Dir [(''size'', DT_REG), (''type'', DT_REG), (''level'', DT_REG), (''shared_cpu_map'', DT_REG)]),
      (''/sys/devices/system/cpu/cpu0/cache/index1/size'', File ''2048K''),
      (''/sys/devices/system/cpu/cpu0/cache/index1/type'', File ''Unified''),
      (''/sys/devices/system/cpu/cpu0/cache/index1/level'', File ''2''),
      (''/sys/devices/system/cpu/cpu0/cache/index1/shared_cpu_map'', File ''1'')]"

definition ctx_cache_gap :: topo_context where
  "ctx_cache_gap = the (the (new_context fs_cache_gap ''/sys'' 8))"

text \<open>
  \<open>fs_no_core_siblings\<close>: one CPU, number 0, with a \<open>thread_siblings\<close> file and no
  \<open>core_siblings\<close> file.
\<close>

definition fs_no_core_siblings :: filesystem where
  "fs_no_core_siblings = map_of
     [(''/sys/devices/system/cpu'', Dir [(''cpu0'', DT_DIR)]),
      (''/sys/devices/system/cpu/cpu0/topology/thread_siblings'', File ''3'')]"

definition ctx_no_core_siblings :: topo_context where
  "ctx_no_core_siblings = the (the (new_context fs_no_core_siblings ''/sys'' 8))"

text \<open>
  \<open>ctx_fake_node\<close>: the context of a build rooted at \<open>/sys\<close> at the moment \<open>do_node_cpus\<close>
  starts on the fake node 0: \<open>build_context\<close> has allocated the system entity (entity 0)
  and \<open>do_one_node\<close> the node (entity 1); no CPU has been visited.
\<close>

definition ctx_fake_node :: topo_context where
  "ctx_fake_node =
     (let ctx0 = snd (the (alloc_init_topo_procent (new_context_init ''/sys'' 8) None 0));
          ctx1 = ctx0\<lparr>system := Some 0\<rparr>
      in snd (the (alloc_init_topo_procent ctx1 (Some 0) 0)))"

text \<open>
  \<open>ctx_shared_core_cpu0\<close>: the context of the build on \<open>fs_shared_core\<close> after \<open>do_one_cpu\<close>
  has run for CPU 0 and before it runs for CPU 1.
\<close>

definition ctx_shared_core_cpu0 :: topo_context where
  "ctx_shared_core_cpu0 = snd (the (do_one_cpu fs_shared_core ctx_fake_node 1 0))"
section \<open>Properties of the bitmask parser\<close>

subsection \<open>The two loops of the parser\<close>

lemma bit_div2_diff: "Suc cpu \<le> i \<Longrightarrow> bit (val div 2) (i - Suc cpu) = bit (val::nat) (i - cpu)"
proof -
  assume "Suc cpu \<le> i"
  then obtain j where "i = Suc cpu + j" using le_Suc_ex by blast
  then show ?thesis by (simp add: bit_Suc)
qed

lemma set_nibble_eq:
  "set_nibble n val cpu sz m =
     (cpu + n, m \<union> {i. i div 8 < sz \<and> cpu \<le> i \<and> i < cpu + n \<and> bit val (i - cpu)})"
proof (induction n arbitrary: val cpu m)
  case 0
  then show ?case by auto
next
  case (Suc n)
  have "{i. i div 8 < sz \<and> cpu \<le> i \<and> i < cpu + Suc n \<and> bit val (i - cpu)}
      = {i. i div 8 < sz \<and> i = cpu \<and> odd val} \<union> {i. i div 8 < sz \<and> Suc cpu \<le> i \<and> i < Suc cpu + n \<and> bit (val div 2) (i - Suc cpu)}"
    (is "?L = ?A \<union> ?B")
  proof (rule set_eqI)
    fix i
    show "i \<in> ?L \<longleftrightarrow> i \<in> ?A \<union> ?B"
    proof (cases "i = cpu")
      case True
      then show ?thesis by (simp add: bit_0)
    next
      case False
      then have "cpu \<le> i \<longleftrightarrow> Suc cpu \<le> i" by arith
      then show ?thesis using False by (auto simp: bit_div2_diff)
    qed
  qed
  then show ?case
    by (auto simp: Suc CPU_SET_S_def)
qed

lemma char_to_val_less: "isxdigit c \<Longrightarrow> char_to_val c < 16"
  by (auto simp: isxdigit_def char_to_val_def ascii_vals_def)

lemma bit_nibble_high: "(v::nat) < 16 \<Longrightarrow> 4 \<le> k \<Longrightarrow> \<not> bit v k"
proof -
  assume "v < 16" "4 \<le> k"
  have "(2::nat) ^ 4 \<le> 2 ^ k" using \<open>4 \<le> k\<close> by (intro power_increasing) simp_all
  then have "v < 2 ^ k" using \<open>v < 16\<close> by simp
  then show ?thesis
    by (simp add: bit_iff_odd)
qed

lemma parse_digits_ok:
  "\<forall>c\<in>set cs. isxdigit c \<or> c = CHR '','' \<Longrightarrow>
   parse_digits cs cpu sz m =
     (True, m \<union> {i. i div 8 < sz \<and> cpu \<le> i \<and>
          (i - cpu) div 4 < length (filter isxdigit cs) \<and>
          bit (char_to_val (filter isxdigit cs ! ((i - cpu) div 4))) ((i - cpu) mod 4)})"
proof (induction cs arbitrary: cpu m)
  case Nil
  then show ?case by auto
next
  case (Cons c cs)
  show ?case
  proof (cases "c = CHR '',''")
    case True
    then have "\<not> isxdigit c" by (simp add: isxdigit_def)
    with True Cons show ?thesis by simp
  next
    case False
    with Cons.prems have x: "isxdigit c" by simp
    have v: "char_to_val c < 16" using x by (rule char_to_val_less)
    let ?ds = "filter isxdigit cs"
    let ?A = "{i. i div 8 < sz \<and> cpu \<le> i \<and> i < cpu + 4 \<and> bit (char_to_val c) (i - cpu)}"
    let ?B = "{i. i div 8 < sz \<and> cpu + 4 \<le> i \<and> (i - (cpu + 4)) div 4 < length ?ds \<and>
          bit (char_to_val (?ds ! ((i - (cpu + 4)) div 4))) ((i - (cpu + 4)) mod 4)}"
    let ?C = "{i. i div 8 < sz \<and> cpu \<le> i \<and> (i - cpu) div 4 < length (c # ?ds) \<and>
          bit (char_to_val ((c # ?ds) ! ((i - cpu) div 4))) ((i - cpu) mod 4)}"
    have "?A \<union> ?B = ?C"
    proof (rule set_eqI)
      fix i
      show "i \<in> ?A \<union> ?B \<longleftrightarrow> i \<in> ?C"
      proof (cases "i < cpu + 4")
        case True
        then have "cpu \<le> i \<Longrightarrow> (i - cpu) div 4 = 0 \<and> (i - cpu) mod 4 = i - cpu" by simp
        with True show ?thesis by auto
      next
        case False
        then obtain d where d: "i = cpu + 4 + d" using le_Suc_ex not_less by metis
        have "(4 + d) div 4 = Suc (d div 4)" "(4 + d) mod 4 = d mod 4" by simp_all
        with d show ?thesis by simp
      qed
    qed
    moreover have "parse_digits (c # cs) cpu sz m = (True, (m \<union> ?A) \<union> ?B)"
      using False x Cons.prems by (simp add: set_nibble_eq Cons.IH)
    ultimately show ?thesis using x by (simp add: Un_assoc)
  qed
qed

lemma parse_digits_fail:
  "\<exists>c\<in>set cs. \<not> isxdigit c \<and> c \<noteq> CHR '','' \<Longrightarrow> fst (parse_digits cs cpu sz m) = False"
  by (induction cs arbitrary: cpu m) (auto split: prod.splits)

subsection \<open>Outcome of \<open>topology_cpumask_parse\<close>\<close>

lemma parse_digits_fst:
  "fst (parse_digits cs cpu sz m) \<longleftrightarrow> (\<forall>c\<in>set cs. isxdigit c \<or> c = CHR '','')"
  by (induction cs arbitrary: cpu m) (auto split: prod.splits)

lemma CPU_ISSET_S_ZERO [simp]: "\<not> CPU_ISSET_S i sz (CPU_ZERO_S sz m)"
  by (simp add: CPU_ISSET_S_def CPU_ZERO_S_def)

lemma filter_dropWhile_not: "filter P (dropWhile (\<lambda>c. \<not> P c) xs) = filter P xs"
  by (induction xs) auto

lemma dropWhile_Nil_iff: "dropWhile (\<lambda>c. \<not> P c) xs = [] \<longleftrightarrow> \<not> (\<exists>c\<in>set xs. P c)"
  by (induction xs) auto

lemma cpumask_parse_fst:
  "fst (topology_cpumask_parse cpumask sz buf) = 0 \<longleftrightarrow>
     (\<exists>c\<in>set buf. isxdigit c) \<and> (\<forall>c\<in>set (upto_last_xdigit buf). isxdigit c \<or> c = CHR '','')"
proof -
  let ?pos = "dropWhile (\<lambda>c. \<not> isxdigit c) (rev buf)"
  have "?pos = [] \<longleftrightarrow> \<not> (\<exists>c\<in>set buf. isxdigit c)"
    by (simp add: dropWhile_Nil_iff)
  moreover have "fst (parse_digits ?pos 0 sz (CPU_ZERO_S sz cpumask)) \<longleftrightarrow>
      (\<forall>c\<in>set (upto_last_xdigit buf). isxdigit c \<or> c = CHR '','')"
    by (simp add: parse_digits_fst upto_last_xdigit_def)
  ultimately show ?thesis
    by (auto simp: topology_cpumask_parse_def Let_def split: prod.splits bool.splits)
qed

lemma cpumask_parse_ok_bits:
  assumes "fst (topology_cpumask_parse cpumask sz buf) = 0"
  shows "CPU_ISSET_S i sz (snd (topology_cpumask_parse cpumask sz buf)) \<longleftrightarrow>
     i < 8 * sz \<and> i div 4 < length (hex_digits_from_end buf) \<and>
     bit (hex_digits_from_end buf ! (i div 4)) (i mod 4)"
proof -
  let ?pos = "dropWhile (\<lambda>c. \<not> isxdigit c) (rev buf)"
  from assms have ok: "\<forall>c\<in>set ?pos. isxdigit c \<or> c = CHR '',''" and ne: "?pos \<noteq> []"
    by (simp_all add: cpumask_parse_fst upto_last_xdigit_def dropWhile_Nil_iff)
  have f: "filter isxdigit ?pos = filter isxdigit (rev buf)"
    by (rule filter_dropWhile_not)
  have lt: "i div 8 < sz \<longleftrightarrow> i < 8 * sz" by (simp add: div_less_iff_less_mult mult.commute)
  have len: "i div 4 < length (filter isxdigit (rev buf)) \<Longrightarrow>
      map char_to_val (filter isxdigit (rev buf)) ! (i div 4) = char_to_val (filter isxdigit (rev buf) ! (i div 4))"
    by simp
  show ?thesis
    using ne len unfolding topology_cpumask_parse_def Let_def parse_digits_ok [OF ok] f hex_digits_from_end_def
    by (auto simp: CPU_ISSET_S_def CPU_ZERO_S_def lt)
qed

lemma cpumask_parse_fail_zero:
  assumes "fst (topology_cpumask_parse cpumask sz buf) \<noteq> 0"
  shows "\<not> CPU_ISSET_S i sz (snd (topology_cpumask_parse cpumask sz buf))"
  using assms by (auto simp: topology_cpumask_parse_def Let_def split: prod.splits bool.splits if_splits)

lemma set_upto_last_xdigit: "c \<in> set (upto_last_xdigit buf) \<Longrightarrow> c \<in> set buf"
proof -
  assume "c \<in> set (upto_last_xdigit buf)"
  then have "c \<in> set (dropWhile (\<lambda>c. \<not> isxdigit c) (rev buf))"
    by (simp add: upto_last_xdigit_def)
  then have "c \<in> set (rev buf)"
    by (rule set_dropWhileD)
  then show ?thesis by simp
qed
subsection \<open>Claims about the parser\<close>

text \<open>
  Claim C1, amended. On every well-formed kernel bitmask string the parser returns 0, and
  afterwards a bit \<open>i\<close> of the mask is set exactly when \<open>i\<close> lies inside the mask
  (\<open>i < 8 * sz\<close>) and bit \<open>i mod 4\<close> is set in the value of the hexadecimal digit number
  \<open>i div 4\<close> counted from the end of the string, commas not counted. Digits that fall
  beyond the width of the mask are dropped without an error. Upper-case and lower-case
  digits have the same values.
\<close>

theorem cpumask_parse_well_formed:
  assumes "well_formed_mask_string buf"
  shows "fst (topology_cpumask_parse cpumask sz buf) = 0 \<and>
    (\<forall>i. CPU_ISSET_S i sz (snd (topology_cpumask_parse cpumask sz buf)) \<longleftrightarrow>
       i < 8 * sz \<and> i div 4 < length (hex_digits_from_end buf) \<and>
       bit (hex_digits_from_end buf ! (i div 4)) (i mod 4)) \<and>
    map char_to_val ''0123456789abcdefABCDEF'' =
      [0, 1, 2, 3, 4, 5, 6, 7, 8, 9, 10, 11, 12, 13, 14, 15, 10, 11, 12, 13, 14, 15]"
proof -
  have "set (upto_last_xdigit buf) \<subseteq> set buf"
    using set_upto_last_xdigit by blast
  with assms have ok: "fst (topology_cpumask_parse cpumask sz buf) = 0"
    unfolding cpumask_parse_fst well_formed_mask_string_def by blast
  have tbl: "map char_to_val ''0123456789abcdefABCDEF'' =
      [0, 1, 2, 3, 4, 5, 6, 7, 8, 9, 10, 11, 12, 13, 14, 15, 10, 11, 12, 13, 14, 15]"
    by (simp add: char_to_val_def ascii_vals_def)
  show ?thesis
    by (intro conjI allI) (rule ok, rule cpumask_parse_ok_bits [OF ok], rule tbl)
qed

text \<open>
  Claim C1, witness: the string \<open>A,3\<close> is well formed; with an 8-byte mask the parser
  returns 0, sets bits 0 and 1 (digit 3) and bits 5 and 7 (digit A), and leaves bits 2, 4
  and 6 clear.
\<close>

theorem cpumask_parse_well_formed_witness:
  "well_formed_mask_string ''A,3'' \<and>
   fst (topology_cpumask_parse {} 8 ''A,3'') = 0 \<and>
   CPU_ISSET_S 0 8 (snd (topology_cpumask_parse {} 8 ''A,3'')) \<and>
   CPU_ISSET_S 1 8 (snd (topology_cpumask_parse {} 8 ''A,3'')) \<and>
   \<not> CPU_ISSET_S 2 8 (snd (topology_cpumask_parse {} 8 ''A,3'')) \<and>
   \<not> CPU_ISSET_S 4 8 (snd (topology_cpumask_parse {} 8 ''A,3'')) \<and>
   CPU_ISSET_S 5 8 (snd (topology_cpumask_parse {} 8 ''A,3'')) \<and>
   \<not> CPU_ISSET_S 6 8 (snd (topology_cpumask_parse {} 8 ''A,3'')) \<and>
   CPU_ISSET_S 7 8 (snd (topology_cpumask_parse {} 8 ''A,3''))"
proof -
  have h: "well_formed_mask_string ''A,3''"
    by code_simp
  have d: "hex_digits_from_end ''A,3'' = [3, 10]"
    by code_simp
  note t = cpumask_parse_well_formed [OF h, of "{}" 8, unfolded d]
  from t have bits: "\<And>i. CPU_ISSET_S i 8 (snd (topology_cpumask_parse {} 8 ''A,3'')) \<longleftrightarrow>
      i < 8 * 8 \<and> i div 4 < length [3::nat, 10] \<and> bit ([3::nat, 10] ! (i div 4)) (i mod 4)"
    by blast
  from t have "fst (topology_cpumask_parse {} 8 ''A,3'') = 0"
    by blast
  with h show ?thesis
    unfolding bits by (simp add: bit_iff_odd)
qed

text \<open>
  Claim C1 as stated fails on a string with more digits than the mask has room for: with an
  8-byte mask the 17-digit string below is well formed and parses with result 0, its digit
  number 16 from the end has bit 0 set, yet bit \<open>4 * 16 + 0\<close> is not set: the mask
  stays empty.
\<close>

theorem cpumask_parse_overlong_counterexample:
  "well_formed_mask_string ''10000000000000000'' \<and>
   fst (topology_cpumask_parse {} 8 ''10000000000000000'') = 0 \<and>
   16 < length (hex_digits_from_end ''10000000000000000'') \<and>
   bit (hex_digits_from_end ''10000000000000000'' ! 16) 0 \<and>
   \<not> CPU_ISSET_S (4 * 16 + 0) 8 (snd (topology_cpumask_parse {} 8 ''10000000000000000'')) \<and>
   snd (topology_cpumask_parse {} 8 ''10000000000000000'') = {}"
  by code_simp

text \<open>
  Claim C2, amended. The parser fails exactly when the string has no hexadecimal digit or a
  character that is neither a hexadecimal digit nor a comma occurs anywhere before the last
  hexadecimal digit (also before the first one); whenever it fails, no bit of the mask is
  set.
\<close>

theorem cpumask_parse_fails_iff:
  "(fst (topology_cpumask_parse cpumask sz buf) \<noteq> 0 \<longleftrightarrow>
      \<not> (\<exists>c\<in>set buf. isxdigit c) \<or>
      (\<exists>c\<in>set (upto_last_xdigit buf). \<not> isxdigit c \<and> c \<noteq> CHR '','')) \<and>
   (fst (topology_cpumask_parse cpumask sz buf) \<noteq> 0 \<longrightarrow>
      (\<forall>i. \<not> CPU_ISSET_S i sz (snd (topology_cpumask_parse cpumask sz buf))))"
  using cpumask_parse_fst [of cpumask sz buf] cpumask_parse_fail_zero [of cpumask sz buf]
  by blast

text \<open>
  Claim C2, witness: \<open>1x1\<close> has the character \<open>x\<close> before its last digit; the parser fails
  and the mask, which held bit 5 before the call, is empty afterwards.
\<close>

theorem cpumask_parse_fails_iff_witness:
  "(\<exists>c\<in>set (upto_last_xdigit ''1x1''). \<not> isxdigit c \<and> c \<noteq> CHR '','') \<and>
   fst (topology_cpumask_parse {5} 8 ''1x1'') \<noteq> 0 \<and>
   (\<forall>i. \<not> CPU_ISSET_S i 8 (snd (topology_cpumask_parse {5} 8 ''1x1'')))"
proof -
  have h: "\<exists>c\<in>set (upto_last_xdigit ''1x1''). \<not> isxdigit c \<and> c \<noteq> CHR '',''"
    by code_simp
  show ?thesis
    using h cpumask_parse_fails_iff [of "{5}" 8 "''1x1''"] by blast
qed

text \<open>
  Claim C2 as stated fails on a string with a character in front of its first digit: the
  string made of a space and \<open>f\<close> has a hexadecimal digit and nothing but that digit between
  its first and its last digit, yet the parser returns 1.
\<close>

theorem cpumask_parse_leading_space_counterexample:
  "topology_cpumask_parse {} 8 '' f'' = (1, {}) \<and>
   (\<exists>c\<in>set '' f''. isxdigit c) \<and>
   digit_region '' f'' = ''f'' \<and>
   \<not> (\<exists>c\<in>set (digit_region '' f''). \<not> isxdigit c \<and> c \<noteq> CHR '','')"
  by code_simp

text \<open>
  Claim C10, amended. The parser succeeds on every string that has a hexadecimal digit and
  whose part up to the last hexadecimal digit, from the very start of the string, holds
  only hexadecimal digits and commas. Groups may have any number of digits, commas may stand
  anywhere, also side by side, and any characters after the last digit are ignored: the
  outcome is the one for the string reduced to its hexadecimal digits.
\<close>

theorem cpumask_parse_lenient:
  assumes "\<exists>c\<in>set buf. isxdigit c"
    and "\<forall>c\<in>set (upto_last_xdigit buf). isxdigit c \<or> c = CHR '',''"
  shows "fst (topology_cpumask_parse cpumask sz buf) = 0 \<and>
    fst (topology_cpumask_parse cpumask sz (filter isxdigit buf)) = 0 \<and>
    (\<forall>i. CPU_ISSET_S i sz (snd (topology_cpumask_parse cpumask sz buf)) \<longleftrightarrow>
         CPU_ISSET_S i sz (snd (topology_cpumask_parse cpumask sz (filter isxdigit buf))))"
proof -
  let ?buf' = "filter isxdigit buf"
  have ok: "fst (topology_cpumask_parse cpumask sz buf) = 0"
    using assms by (simp add: cpumask_parse_fst)
  have "isxdigit c" if "c \<in> set (upto_last_xdigit ?buf')" for c
  proof -
    from that have "c \<in> set ?buf'" by (rule set_upto_last_xdigit)
    then show ?thesis by simp
  qed
  moreover have "\<exists>c\<in>set ?buf'. isxdigit c"
    using assms(1) by auto
  ultimately have ok': "fst (topology_cpumask_parse cpumask sz ?buf') = 0"
    by (simp add: cpumask_parse_fst)
  have "hex_digits_from_end ?buf' = hex_digits_from_end buf"
    by (simp add: hex_digits_from_end_def rev_filter)
  then show ?thesis
    using ok ok' by (simp add: cpumask_parse_ok_bits)
qed

text \<open>
  Claim C10, witness: the two strings named by the claim. \<open>f,,1\<close> has two commas side by
  side and parses like \<open>f1\<close>; \<open>f zz\<close> has a space and letters after its digit and parses
  like \<open>f\<close>.
\<close>

theorem cpumask_parse_lenient_witness:
  "topology_cpumask_parse {} 8 ''f,,1'' = (0, {0, 4, 5, 6, 7}) \<and>
   topology_cpumask_parse {} 8 ''f zz'' = (0, {0, 1, 2, 3}) \<and>
   fst (topology_cpumask_parse {} 8 (filter isxdigit ''f,,1'')) = 0 \<and>
   (\<forall>i. CPU_ISSET_S i 8 (snd (topology_cpumask_parse {} 8 ''f zz'')) \<longleftrightarrow>
        CPU_ISSET_S i 8 (snd (topology_cpumask_parse {} 8 (filter isxdigit ''f zz''))))"
proof -
  have a: "\<exists>c\<in>set ''f,,1''. isxdigit c"
    by code_simp
  have b: "\<exists>c\<in>set ''f zz''. isxdigit c"
    by code_simp
  have a': "\<forall>c\<in>set (upto_last_xdigit ''f,,1''). isxdigit c \<or> c = CHR '',''"
    by code_simp
  have b': "\<forall>c\<in>set (upto_last_xdigit ''f zz''). isxdigit c \<or> c = CHR '',''"
    by code_simp
  have "topology_cpumask_parse {} 8 ''f,,1'' = (0, {0, 4, 5, 6, 7})"
    by code_simp
  moreover have "topology_cpumask_parse {} 8 ''f zz'' = (0, {0, 1, 2, 3})"
    by code_simp
  ultimately show ?thesis
    using cpumask_parse_lenient [OF a a', of "{}" 8] cpumask_parse_lenient [OF b b', of "{}" 8]
    by simp
qed

text \<open>
  Claim C10 as stated fails on a string with a character in front of its first digit: in
  \<open>x1f\<close> the part from the first to the last hexadecimal digit is \<open>1f\<close>, which holds only
  digits, yet the parser returns 1.
\<close>

theorem cpumask_parse_leading_char_counterexample:
  "digit_region ''x1f'' = ''1f'' \<and>
   (\<exists>c\<in>set ''x1f''. isxdigit c) \<and>
   \<not> (\<exists>c\<in>set (digit_region ''x1f''). \<not> isxdigit c \<and> c \<noteq> CHR '','') \<and>
   topology_cpumask_parse {} 8 ''x1f'' = (1, {})"
  by code_simp


section \<open>Properties of the formatter and the round trip\<close>

subsection \<open>Bits of sums of shifted numbers\<close>

lemma not_bit_of_less: "(a::nat) < 2 ^ k \<Longrightarrow> k \<le> n \<Longrightarrow> \<not> bit a n"
proof -
  assume "a < 2 ^ k" "k \<le> n"
  have "(2::nat) ^ k \<le> 2 ^ n" using \<open>k \<le> n\<close> by (intro power_increasing) simp_all
  with \<open>a < 2 ^ k\<close> have "a < 2 ^ n" by (rule less_le_trans)
  then show ?thesis by (simp add: bit_iff_odd)
qed

lemma bit_add_pow:
  fixes a b :: nat
  assumes "a < 2 ^ k"
  shows "bit (a + 2 ^ k * b) i \<longleftrightarrow> (if i < k then bit a i else bit b (i - k))"
proof -
  have "a + push_bit k b = a OR push_bit k b"
  proof (rule disjunctive_add)
    fix n
    show "\<not> bit a n \<or> \<not> bit (push_bit k b) n"
      using not_bit_of_less [OF assms, of n] by (cases "k \<le> n") (simp_all add: bit_push_bit_iff_nat)
  qed
  then have "bit (a + 2 ^ k * b) i \<longleftrightarrow> bit a i \<or> bit (push_bit k b) i"
    by (simp add: push_bit_eq_mult mult.commute bit_or_iff)
  then show ?thesis
    using not_bit_of_less [OF assms, of i] by (auto simp: bit_push_bit_iff_nat)
qed

lemma digits_val_less: "\<forall>d\<in>set ds. d < 16 \<Longrightarrow> digits_val ds < 16 ^ length ds"
  by (induction ds) auto

lemma bit_digits_val:
  "\<forall>d\<in>set ds. d < 16 \<Longrightarrow>
   bit (digits_val ds) i \<longleftrightarrow> i div 4 < length ds \<and> bit (ds ! (i div 4)) (i mod 4)"
proof (induction ds arbitrary: i)
  case Nil
  then show ?case by simp
next
  case (Cons d ds)
  then have d: "d < 2 ^ 4" by simp
  have ih: "\<And>j. bit (digits_val ds) j \<longleftrightarrow> j div 4 < length ds \<and> bit (ds ! (j div 4)) (j mod 4)"
    using Cons by simp
  have "bit (d + 2 ^ 4 * digits_val ds) i \<longleftrightarrow> (if i < 4 then bit d i else bit (digits_val ds) (i - 4))"
    by (rule bit_add_pow [OF d])
  moreover have "\<not> i < 4 \<Longrightarrow> i div 4 = Suc ((i - 4) div 4) \<and> i mod 4 = (i - 4) mod 4"
    by (metis add_diff_inverse_nat div_add_self1 mod_add_self1 zero_neq_numeral plus_1_eq_Suc add.commute)
  ultimately show ?case
    by (auto simp: ih)
qed

lemma digits_val_append:
  "digits_val (xs @ ys) = digits_val xs + 16 ^ length xs * digits_val ys"
  by (induction xs) (auto simp: algebra_simps)

lemma bit_unat32: "bit (unat (w::32 word)) j \<longleftrightarrow> bit w j"
  by (simp add: bit_unsigned_iff)

lemma bit_cpuset_to_uint_aux:
  "n \<le> 32 \<Longrightarrow>
   bit (fold (\<lambda>i ret. if P i then ret + push_bit i 1 else ret) [0..<n] (0::32 word)) j
     \<longleftrightarrow> j < n \<and> P j"
proof (induction n arbitrary: j)
  case 0
  then show ?case by simp
next
  case (Suc n)
  let ?r = "fold (\<lambda>i ret. if P i then ret + push_bit i 1 else ret) [0..<n] (0::32 word)"
  have ih: "\<And>j. bit ?r j \<longleftrightarrow> j < n \<and> P j" using Suc by simp
  have "?r + push_bit n 1 = ?r OR push_bit n 1"
    by (rule disjunctive_add) (auto simp: ih bit_push_bit_iff bit_1_iff bit_exp_iff)
  then have "bit (?r + push_bit n 1) j \<longleftrightarrow> bit ?r j \<or> (j = n)"
    using Suc.prems by (auto simp: bit_or_iff bit_push_bit_iff bit_1_iff bit_exp_iff possible_bit_word)
  then show ?case
    by (auto simp: ih less_Suc_eq)
qed

lemma bit_cpuset_to_uint:
  "bit (cpuset_to_uint cpumask sz index) j \<longleftrightarrow> j < 32 \<and> CPU_ISSET_S (j + index * 32) sz cpumask"
  unfolding cpuset_to_uint_def by (rule bit_cpuset_to_uint_aux) simp

lemma words_val_less: "words_val cpumask sz n < 2 ^ (32 * n)"
proof (induction n)
  case 0
  then show ?case by simp
next
  case (Suc n)
  have "unat (cpuset_to_uint cpumask sz n) < 2 ^ 32"
    using unsigned_less [of "cpuset_to_uint cpumask sz n"] by simp
  then have "unat (cpuset_to_uint cpumask sz n) + 1 \<le> 2 ^ 32" by simp
  then have "2 ^ (32 * n) * (unat (cpuset_to_uint cpumask sz n) + 1) \<le> 2 ^ (32 * n) * (2 ^ 32 :: nat)"
    by (rule mult_le_mono2)
  also have "2 ^ (32 * n) * (2 ^ 32 :: nat) = 2 ^ (32 * Suc n)"
    by (simp add: power_add)
  finally have "2 ^ (32 * n) + 2 ^ (32 * n) * unat (cpuset_to_uint cpumask sz n) \<le> 2 ^ (32 * Suc n)"
    by (simp add: algebra_simps)
  with Suc show ?case by simp
qed

lemma bit_words_val:
  "bit (words_val cpumask sz n) i \<longleftrightarrow> i < 32 * n \<and> CPU_ISSET_S i sz cpumask"
proof (induction n)
  case 0
  then show ?case by simp
next
  case (Suc n)
  have "bit (words_val cpumask sz n + 2 ^ (32 * n) * unat (cpuset_to_uint cpumask sz n)) i \<longleftrightarrow>
      (if i < 32 * n then bit (words_val cpumask sz n) i
       else bit (unat (cpuset_to_uint cpumask sz n)) (i - 32 * n))"
    by (rule bit_add_pow [OF words_val_less])
  then show ?case
    by (auto simp: Suc bit_unat32 bit_cpuset_to_uint)
qed

subsection \<open>The text printed for one word\<close>

lemma hex_char_table:
  "\<forall>d\<in>set [0..<16]. isxdigit (hex_char d) \<and> char_to_val (hex_char d) = d"
  by code_simp

lemma hex_char_ok: "d < 16 \<Longrightarrow> isxdigit (hex_char d) \<and> char_to_val (hex_char d) = d"
  using hex_char_table by simp

lemma hex_digits_from_end_append:
  "hex_digits_from_end (s @ t) = hex_digits_from_end t @ hex_digits_from_end s"
  by (simp add: hex_digits_from_end_def)

lemma hex_digits_to_hex:
  "set (to_hex n) \<subseteq> Collect isxdigit \<and> digits_val (hex_digits_from_end (to_hex n)) = n"
proof (induction n rule: to_hex.induct)
  case (1 n)
  show ?case
  proof (cases "n < 16")
    case True
    then show ?thesis
      using hex_char_ok [of n] by (simp add: hex_digits_from_end_def)
  next
    case False
    have m: "n mod 16 < 16" by simp
    from False have eq: "to_hex n = to_hex (n div 16) @ [hex_char (n mod 16)]"
      by (subst to_hex.simps) simp
    have "hex_digits_from_end [hex_char (n mod 16)] = [n mod 16]"
      using hex_char_ok [OF m] by (simp add: hex_digits_from_end_def)
    then show ?thesis
      using 1 [OF False] hex_char_ok [OF m] False
      by (simp add: eq hex_digits_from_end_append del: to_hex.simps)
  qed
qed

lemma length_to_hex: "0 < k \<Longrightarrow> n < 16 ^ k \<Longrightarrow> length (to_hex n) \<le> k"
proof (induction n arbitrary: k rule: to_hex.induct)
  case (1 n)
  show ?case
  proof (cases "n < 16")
    case True
    then show ?thesis using 1(2) by simp
  next
    case False
    from False have eq: "to_hex n = to_hex (n div 16) @ [hex_char (n mod 16)]"
      by (subst to_hex.simps) simp
    from False 1(3) have k: "1 < k"
      by (cases "k = 1") (use 1(2) in auto)
    then obtain k' where k': "k = Suc k'" "0 < k'" by (cases k) auto
    from 1(3) have "n div 16 < 16 ^ k'"
      by (simp add: k' less_mult_imp_div_less mult.commute)
    from 1(1) [OF False k'(2) this] show ?thesis by (simp add: eq k' del: to_hex.simps)
  qed
qed

subsection \<open>The formatting loop\<close>

lemma mask_string_val_append:
  "mask_string_val (s @ t) =
     mask_string_val t + 16 ^ length (hex_digits_from_end t) * mask_string_val s"
  by (simp add: mask_string_val_def hex_digits_from_end_append digits_val_append)

lemma mask_string_val_comma [simp]: "mask_string_val '','' = 0"
  by (simp add: mask_string_val_def hex_digits_from_end_def isxdigit_def)

lemma hex_digits_comma [simp]: "hex_digits_from_end '','' = []"
  by (simp add: hex_digits_from_end_def isxdigit_def)

lemma sprintf_x_props:
  "set (sprintf_x w) \<subseteq> Collect isxdigit" "mask_string_val (sprintf_x w) = unat w"
  "sprintf_x w \<noteq> []" "length (sprintf_x w) \<le> 8"
proof -
  show "set (sprintf_x w) \<subseteq> Collect isxdigit" "mask_string_val (sprintf_x w) = unat w"
    using hex_digits_to_hex [of "unat w"] by (simp_all add: sprintf_x_def mask_string_val_def)
  show "sprintf_x w \<noteq> []"
    unfolding sprintf_x_def by (subst to_hex.simps) simp
  have "unat w < 2 ^ 32" using unsigned_less [of w] by simp
  then have "unat w < 16 ^ 8" by simp
  then show "length (sprintf_x w) \<le> 8"
    unfolding sprintf_x_def by (intro length_to_hex) simp_all
qed

lemma zero_is_xdigit: "isxdigit CHR ''0''" "char_to_val CHR ''0'' = 0"
  by (simp_all add: isxdigit_def char_to_val_def ascii_vals_def)

lemma hex_digits_all_xdigit:
  "set s \<subseteq> Collect isxdigit \<Longrightarrow> length (hex_digits_from_end s) = length s"
proof -
  assume "set s \<subseteq> Collect isxdigit"
  then have "filter isxdigit (rev s) = rev s" by (auto simp: filter_id_conv)
  then show ?thesis by (simp add: hex_digits_from_end_def)
qed

lemma sprintf_08x_props:
  "set (sprintf_08x w) \<subseteq> Collect isxdigit" "mask_string_val (sprintf_08x w) = unat w"
  "length (hex_digits_from_end (sprintf_08x w)) = 8"
proof -
  let ?k = "8 - length (sprintf_x w)"
  show x: "set (sprintf_08x w) \<subseteq> Collect isxdigit"
    using sprintf_x_props(1) [of w] zero_is_xdigit(1) by (auto simp: sprintf_08x_def)
  have "hex_digits_from_end (replicate ?k CHR ''0'') = replicate ?k 0"
    using zero_is_xdigit by (simp add: hex_digits_from_end_def)
  moreover have "digits_val (replicate k 0) = 0" for k
    by (induction k) simp_all
  ultimately have "mask_string_val (replicate ?k CHR ''0'') = 0"
    by (simp add: mask_string_val_def)
  then show "mask_string_val (sprintf_08x w) = unat w"
    by (simp add: sprintf_08x_def mask_string_val_append sprintf_x_props(2))
  have "length (sprintf_08x w) = 8"
    using sprintf_x_props(4) [of w] by (simp add: sprintf_08x_def)
  then show "length (hex_digits_from_end (sprintf_08x w)) = 8"
    using hex_digits_all_xdigit [OF x] by simp
qed

lemma format_words_skip:
  "cpuset_to_uint cpumask sz n = 0 \<and> \<not> seen \<Longrightarrow>
   format_words (Suc n) cpumask sz commas seen buf = format_words n cpumask sz commas seen buf"
  by simp

lemma format_words_print:
  "\<not> (cpuset_to_uint cpumask sz n = 0 \<and> \<not> seen) \<Longrightarrow>
   format_words (Suc n) cpumask sz commas seen buf =
     format_words n cpumask sz commas True
       (if n \<noteq> 0 \<and> commas \<noteq> 0
        then (if cpuset_to_uint cpumask sz n \<noteq> 0 \<and> \<not> seen
              then buf @ sprintf_x (cpuset_to_uint cpumask sz n)
              else buf @ sprintf_08x (cpuset_to_uint cpumask sz n)) @ '',''
        else (if cpuset_to_uint cpumask sz n \<noteq> 0 \<and> \<not> seen
              then buf @ sprintf_x (cpuset_to_uint cpumask sz n)
              else buf @ sprintf_08x (cpuset_to_uint cpumask sz n)))"
  by (simp only: format_words.simps Let_def if_not_P if_False)

lemma format_state_ok_print:
  assumes "format_state_ok seen buf" "set p \<subseteq> Collect isxdigit" "p \<noteq> []"
  shows "format_state_ok True (if sep then (buf @ p) @ '','' else buf @ p)"
proof -
  from assms(3) obtain c where "c \<in> set p" by (cases p) auto
  with assms(2) have "\<exists>c\<in>set (buf @ p). isxdigit c" by auto
  moreover have "\<forall>c\<in>set (buf @ p). isxdigit c \<or> c = CHR '',''"
    using assms(1,2) by (auto simp: format_state_ok_def)
  ultimately show ?thesis by (auto simp: format_state_ok_def)
qed

lemma mask_string_val_print:
  "mask_string_val (if sep then (buf @ p) @ '','' else buf @ p) =
     mask_string_val p + 16 ^ length (hex_digits_from_end p) * mask_string_val buf"
  by (simp add: mask_string_val_def hex_digits_from_end_append digits_val_append)

lemma sprintf_08x_nonempty: "sprintf_08x w \<noteq> []"
  using sprintf_x_props(3) [of w] by (simp add: sprintf_08x_def)

lemma format_words_val:
  assumes "format_state_ok seen buf"
    and "format_words n cpumask sz commas seen buf = (seen', buf')"
  shows "format_state_ok seen' buf' \<and>
    mask_string_val buf' = 2 ^ (32 * n) * mask_string_val buf + words_val cpumask sz n"
  using assms
proof (induction n arbitrary: seen buf)
  case 0
  then show ?case by simp
next
  case (Suc n)
  let ?w = "cpuset_to_uint cpumask sz n"
  show ?case
  proof (cases "?w = 0 \<and> \<not> seen")
    case True
    from Suc.prems(2) have "format_words n cpumask sz commas seen buf = (seen', buf')"
      by (simp only: format_words_skip [OF True])
    from Suc.IH [OF Suc.prems(1) this] True Suc.prems(1) show ?thesis
      by (simp add: format_state_ok_def mask_string_val_def hex_digits_from_end_def)
  next
    case False
    let ?printed = "if ?w \<noteq> 0 \<and> \<not> seen then buf @ sprintf_x ?w else buf @ sprintf_08x ?w"
    let ?buf2 = "if n \<noteq> 0 \<and> commas \<noteq> 0 then ?printed @ '','' else ?printed"
    from Suc.prems(2) have run: "format_words n cpumask sz commas True ?buf2 = (seen', buf')"
      by (simp only: format_words_print [OF False])
    have ok2: "format_state_ok True ?buf2"
    proof (cases "?w \<noteq> 0 \<and> \<not> seen")
      case True
      have "format_state_ok True
          (if n \<noteq> 0 \<and> commas \<noteq> 0 then (buf @ sprintf_x ?w) @ '','' else buf @ sprintf_x ?w)"
        by (rule format_state_ok_print [OF Suc.prems(1) sprintf_x_props(1) sprintf_x_props(3)])
      then show ?thesis by (simp only: if_P [OF True])
    next
      case False
      have "format_state_ok True
          (if n \<noteq> 0 \<and> commas \<noteq> 0 then (buf @ sprintf_08x ?w) @ '','' else buf @ sprintf_08x ?w)"
        by (rule format_state_ok_print [OF Suc.prems(1) sprintf_08x_props(1) sprintf_08x_nonempty])
      then show ?thesis by (simp only: if_not_P [OF False])
    qed
    have val2: "mask_string_val ?buf2 = unat ?w + 2 ^ 32 * mask_string_val buf"
    proof (cases "?w \<noteq> 0 \<and> \<not> seen")
      case True
      with Suc.prems(1) have "buf = []" by (simp add: format_state_ok_def)
      then have "mask_string_val buf = 0"
        by (simp add: mask_string_val_def hex_digits_from_end_def)
      then have "mask_string_val
          (if n \<noteq> 0 \<and> commas \<noteq> 0 then (buf @ sprintf_x ?w) @ '','' else buf @ sprintf_x ?w)
          = unat ?w + 2 ^ 32 * mask_string_val buf"
        by (simp only: mask_string_val_print sprintf_x_props(2) mult_0_right)
      then show ?thesis by (simp only: if_P [OF True])
    next
      case False
      have "mask_string_val
          (if n \<noteq> 0 \<and> commas \<noteq> 0 then (buf @ sprintf_08x ?w) @ '','' else buf @ sprintf_08x ?w)
          = unat ?w + 2 ^ 32 * mask_string_val buf"
        by (simp add: mask_string_val_print sprintf_08x_props(2,3))
      then show ?thesis by (simp only: if_not_P [OF False])
    qed
    define buf2 where "buf2 = ?buf2"
    from Suc.IH [OF ok2 run] val2
    have "format_state_ok seen' buf' \<and>
        mask_string_val buf' = 2 ^ (32 * n) * mask_string_val buf2 + words_val cpumask sz n"
      and "mask_string_val buf2 = unat ?w + 2 ^ 32 * mask_string_val buf"
      unfolding buf2_def by blast+
    then show ?thesis
      by (simp add: power_add algebra_simps)
  qed
qed

subsection \<open>The formatted string and its parse\<close>

lemma format_cpuset_props:
  "well_formed_mask_string (format_cpuset cpumask W commas) \<and>
   mask_string_val (format_cpuset cpumask W commas) =
     words_val cpumask W (if W > 4 then W div 4 else 1)"
proof -
  let ?n = "if W > 4 then W div 4 else 1"
  obtain seen buf where run: "format_words ?n cpumask W commas False [] = (seen, buf)"
    by (cases "format_words ?n cpumask W commas False []")
  have init: "format_state_ok False []" by (simp add: format_state_ok_def)
  have z: "mask_string_val [] = 0"
    by (simp add: mask_string_val_def hex_digits_from_end_def)
  from format_words_val [OF init run]
  have ok: "format_state_ok seen buf" and val: "mask_string_val buf = words_val cpumask W ?n"
    by (simp_all add: z)
  show ?thesis
  proof (cases seen)
    case True
    then have "format_cpuset cpumask W commas = buf"
      using run by (simp add: format_cpuset_def Let_def)
    with ok val True show ?thesis
      by (simp add: format_state_ok_def well_formed_mask_string_def)
  next
    case False
    with ok have "buf = []" by (simp add: format_state_ok_def)
    then have out: "format_cpuset cpumask W commas = ''0''"
      using run False by (simp add: format_cpuset_def Let_def)
    have "mask_string_val ''0'' = 0" "well_formed_mask_string ''0''"
      by (simp_all add: mask_string_val_def hex_digits_from_end_def zero_is_xdigit
          well_formed_mask_string_def)
    with val z \<open>buf = []\<close> show ?thesis by (simp add: out)
  qed
qed

lemma hex_digits_from_end_less: "\<forall>d\<in>set (hex_digits_from_end buf). d < 16"
  by (auto simp: hex_digits_from_end_def char_to_val_less)

lemma cpumask_parse_ok_val:
  assumes "fst (topology_cpumask_parse cpumask sz buf) = 0"
  shows "CPU_ISSET_S i sz (snd (topology_cpumask_parse cpumask sz buf)) \<longleftrightarrow>
     i < 8 * sz \<and> bit (mask_string_val buf) i"
  unfolding cpumask_parse_ok_bits [OF assms] mask_string_val_def
    bit_digits_val [OF hex_digits_from_end_less] ..

lemma well_formed_parse_ok:
  "well_formed_mask_string buf \<Longrightarrow> fst (topology_cpumask_parse cpumask sz buf) = 0"
proof -
  assume wf: "well_formed_mask_string buf"
  then have "\<forall>c\<in>set (upto_last_xdigit buf). isxdigit c \<or> c = CHR '',''"
    using set_upto_last_xdigit [of _ buf] unfolding well_formed_mask_string_def by blast
  with wf show ?thesis
    unfolding cpumask_parse_fst well_formed_mask_string_def by blast
qed

lemma parse_digits_in_range:
  "m \<subseteq> {i. i div 8 < sz} \<Longrightarrow> snd (parse_digits cs cpu sz m) \<subseteq> {i. i div 8 < sz}"
proof (induction cs arbitrary: cpu m)
  case Nil
  then show ?case by simp
next
  case (Cons c cs)
  have "m \<union> {i. i div 8 < sz \<and> cpu \<le> i \<and> i < cpu + 4 \<and> bit (char_to_val c) (i - cpu)}
      \<subseteq> {i. i div 8 < sz}"
    using Cons.prems by auto
  then show ?case
    using Cons.IH Cons.prems by (simp add: set_nibble_eq)
qed

lemma cpumask_parse_in_range:
  assumes "dest \<subseteq> {i. i div 8 < sz}"
  shows "snd (topology_cpumask_parse dest sz buf) \<subseteq> {i. i div 8 < sz}"
proof -
  have z: "CPU_ZERO_S sz m \<subseteq> {i. i div 8 < sz}" if "m \<subseteq> {i. i div 8 < sz}" for m
    using that by (auto simp: CPU_ZERO_S_def)
  let ?pos = "dropWhile (\<lambda>c. \<not> isxdigit c) (rev buf)"
  obtain b m' where r: "parse_digits ?pos 0 sz (CPU_ZERO_S sz dest) = (b, m')"
    by (cases "parse_digits ?pos 0 sz (CPU_ZERO_S sz dest)")
  have "snd (parse_digits ?pos 0 sz (CPU_ZERO_S sz dest)) \<subseteq> {i. i div 8 < sz}"
    by (rule parse_digits_in_range [OF z [OF assms]])
  with r have m': "m' \<subseteq> {i. i div 8 < sz}" by simp
  show ?thesis
    using z [OF z [OF assms]] z [OF m'] m' r
    by (cases b) (simp_all add: topology_cpumask_parse_def Let_def)
qed

subsection \<open>Claim about the round trip\<close>

text \<open>
  Claim C8. For every mask width \<open>W\<close> that is a positive multiple of 4 bytes and every
  mask, parsing the string that \<open>format_cpuset\<close> prints for the mask (with or without
  commas between the 32-bit groups) succeeds, and the parsed mask has exactly the bits of
  the original one inside the width; when both buffers hold bits below \<open>8 * W\<close> only, the
  parsed mask is the original mask.
\<close>

theorem parse_format_round_trip:
  assumes "0 < W" and "4 dvd W"
  shows "fst (topology_cpumask_parse dest W (format_cpuset cpumask W commas)) = 0 \<and>
    (\<forall>i. CPU_ISSET_S i W (snd (topology_cpumask_parse dest W (format_cpuset cpumask W commas)))
          \<longleftrightarrow> CPU_ISSET_S i W cpumask) \<and>
    (dest \<subseteq> {i. i < 8 * W} \<and> cpumask \<subseteq> {i. i < 8 * W} \<longrightarrow>
       snd (topology_cpumask_parse dest W (format_cpuset cpumask W commas)) = cpumask)"
proof -
  let ?s = "format_cpuset cpumask W commas"
  let ?n = "if W > 4 then W div 4 else 1"
  have lt: "\<And>i. i div 8 < W \<longleftrightarrow> i < 8 * W" by (simp add: div_less_iff_less_mult mult.commute)
  from assms have n: "32 * ?n = 8 * W" by (auto elim!: dvdE)
  have ok: "fst (topology_cpumask_parse dest W ?s) = 0"
    using format_cpuset_props by (rule well_formed_parse_ok [OF conjunct1])
  have bits: "CPU_ISSET_S i W (snd (topology_cpumask_parse dest W ?s)) \<longleftrightarrow> CPU_ISSET_S i W cpumask" for i
  proof -
    have "CPU_ISSET_S i W (snd (topology_cpumask_parse dest W ?s)) \<longleftrightarrow>
        i < 8 * W \<and> bit (words_val cpumask W ?n) i"
      using format_cpuset_props [of cpumask W commas] by (simp only: cpumask_parse_ok_val [OF ok])
    also have "\<dots> \<longleftrightarrow> i < 8 * W \<and> CPU_ISSET_S i W cpumask"
      by (simp only: bit_words_val n) blast
    also have "\<dots> \<longleftrightarrow> CPU_ISSET_S i W cpumask"
      by (auto simp: CPU_ISSET_S_def lt)
    finally show ?thesis .
  qed
  have "snd (topology_cpumask_parse dest W ?s) = cpumask"
    if "dest \<subseteq> {i. i < 8 * W}" and c: "cpumask \<subseteq> {i. i < 8 * W}"
  proof -
    from that(1) have "snd (topology_cpumask_parse dest W ?s) \<subseteq> {i. i div 8 < W}"
      by (intro cpumask_parse_in_range) (simp add: lt)
    then show ?thesis
      using bits c unfolding CPU_ISSET_S_def lt by blast
  qed
  with ok bits show ?thesis by blast
qed

text \<open>
  Claim C8, witness: the 8-byte mask with bits 0, 1 and 32 is printed as \<open>1,00000003\<close>,
  and parsing that text gives the mask back.
\<close>

theorem parse_format_round_trip_witness:
  "format_cpuset {0, 1, 32} 8 1 = ''1,00000003'' \<and>
   topology_cpumask_parse {} 8 ''1,00000003'' = (0, {0, 1, 32}) \<and>
   fst (topology_cpumask_parse {} 8 (format_cpuset {0, 1, 32} 8 1)) = 0 \<and>
   snd (topology_cpumask_parse {} 8 (format_cpuset {0, 1, 32} 8 1)) = {0, 1, 32}"
proof -
  have w: "(0::nat) < 8" "(4::nat) dvd 8" by simp_all
  have r: "{} \<subseteq> {i. i < 8 * (8::nat)} \<and> {0, 1, 32} \<subseteq> {i. i < 8 * (8::nat)}" by simp
  have f: "format_cpuset {0, 1, 32} 8 1 = ''1,00000003''" by code_simp
  have p: "topology_cpumask_parse {} 8 ''1,00000003'' = (0, {0, 1, 32})" by code_simp
  from parse_format_round_trip [OF w, of "{}" "{0, 1, 32}" 1] r f p show ?thesis by blast
qed

section \<open>Properties of traversal and of the build\<close>

subsection \<open>Traversal: the cases that do not walk the tree\<close>

lemma procent_Some: "procent ctx p = Some e \<longleftrightarrow> p < length (ents ctx) \<and> e = ents ctx ! p"
  by (auto simp: procent_def)

lemma ents_ok_system_no_parent:
  assumes "ents_ok ctx" "i < length (ents ctx)" "level (ents ctx ! i) = TOPOLOGY_SYSTEM"
  shows "parent (ents ctx ! i) = None"
proof (cases "parent (ents ctx ! i)")
  case None
  then show ?thesis .
next
  case (Some p)
  with assms(1,2) have p: "p < i" "level (ents ctx ! p) = level (ents ctx ! i) + 1"
    by (auto simp: ents_ok_def)
  with assms(2) have "p < length (ents ctx)" by simp
  with assms(1) have "level_valid (level (ents ctx ! p))" by (simp add: ents_ok_def)
  with p(2) assms(3) show ?thesis by (simp add: level_valid_def topology_level_defs)
qed

lemma traverse_null_cases:
  "\<not> level_valid to \<Longrightarrow> traverse ctx from_ent iter to = Some None"
  "traverse ctx None iter to = Some None"
  by (subst traverse.simps, simp)+

lemma traverse_same_level:
  "procent ctx f = Some fr \<Longrightarrow> to = level fr \<Longrightarrow> traverse ctx (Some f) iter to = Some None"
  by (subst traverse.simps) simp

lemma traverse_parent_valid:
  "procent ctx f = Some fr \<Longrightarrow> to = level fr + 1 \<Longrightarrow> level_valid to \<Longrightarrow>
   traverse ctx (Some f) iter to = Some (parent fr)"
  by (subst traverse.simps) simp

lemma traverse_parent:
  assumes "ents_ok ctx" "procent ctx f = Some fr" "to = level fr + 1"
  shows "traverse ctx (Some f) iter to = Some (parent fr)"
proof (cases "level_valid to")
  case True
  with assms(2,3) show ?thesis by (rule traverse_parent_valid)
next
  case False
  from assms(2) have f: "f < length (ents ctx)" "fr = ents ctx ! f"
    by (simp_all add: procent_Some)
  with assms(1) have "level_valid (level fr)" by (simp add: ents_ok_def)
  with False assms(3) have "level fr = TOPOLOGY_SYSTEM"
    by (simp add: level_valid_def topology_level_defs)
  with assms(1) f have "parent fr = None" by (simp add: ents_ok_system_no_parent)
  with False show ?thesis by (simp add: traverse_null_cases)
qed

subsection \<open>Allocation of an entity\<close>

lemma alloc_SomeE:
  assumes "alloc_init_topo_procent ctx par ident = Some (ent, ctx')"
  obtains
    (sys) "par = None" "ent = length (ents ctx)"
      "ctx' = ctx\<lparr>ents := ents ctx @ [\<lparr>level = TOPOLOGY_SYSTEM, ent_id = ident, hash_key = None,
          parent = None, children = None, sibling = None, next_ent = ent_list ctx,
          ent_cpumask = {}\<rparr>], ent_list := Some ent\<rparr>"
  | (child) p where "par = Some p" "p < length (ents ctx)" "ent = length (ents ctx)"
      "level_valid (level (ents ctx ! p))" "level (ents ctx ! p) \<noteq> TOPOLOGY_THREAD"
      "ctx' = ctx\<lparr>ents := (ents ctx)[p := (ents ctx ! p)\<lparr>children := Some ent\<rparr>] @
          [\<lparr>level = level (ents ctx ! p) - 1, ent_id = ident, hash_key = None,
            parent = Some p, children = None, sibling = children (ents ctx ! p),
            next_ent = ent_list ctx, ent_cpumask = {}\<rparr>], ent_list := Some ent\<rparr>"
  using assms
  by (auto simp: alloc_init_topo_procent_def Let_def procent_def split: option.splits if_splits)

lemma alloc_nth_old:
  assumes "alloc_init_topo_procent ctx par ident = Some (ent, ctx')" "i < length (ents ctx)"
  shows "level (ents ctx' ! i) = level (ents ctx ! i)"
    "parent (ents ctx' ! i) = parent (ents ctx ! i)"
    "ent_id (ents ctx' ! i) = ent_id (ents ctx ! i)"
    "ent_cpumask (ents ctx' ! i) = ent_cpumask (ents ctx ! i)"
    "hash_key (ents ctx' ! i) = hash_key (ents ctx ! i)"
  using assms by (auto elim!: alloc_SomeE simp: nth_append nth_list_update split: if_splits)

lemma alloc_new:
  assumes "alloc_init_topo_procent ctx par ident = Some (ent, ctx')"
  shows "ent = length (ents ctx)" "length (ents ctx') = Suc (length (ents ctx))"
    "parent (ents ctx' ! ent) = par" "ent_id (ents ctx' ! ent) = ident"
    "ent_cpumask (ents ctx' ! ent) = {}"
    "level (ents ctx' ! ent) = (case par of None \<Rightarrow> TOPOLOGY_SYSTEM | Some p \<Rightarrow> level (ents ctx ! p) - 1)"
  using assms by (auto elim!: alloc_SomeE simp: nth_append)

lemma alloc_frame:
  assumes "alloc_init_topo_procent ctx par ident = Some (ent, ctx')"
  shows "sysfs_root ctx' = sysfs_root ctx" "cpu_set_t_size ctx' = cpu_set_t_size ctx"
    "core_htable ctx' = core_htable ctx" "package_htable ctx' = package_htable ctx"
    "devices ctx' = devices ctx" "device_htable ctx' = device_htable ctx"
    "system ctx' = system ctx"
  using assms by (auto elim!: alloc_SomeE)

lemma alloc_parent_ok:
  assumes "alloc_init_topo_procent ctx (Some p) ident = Some (ent, ctx')"
  shows "p < length (ents ctx)" "level_valid (level (ents ctx ! p))"
    "level (ents ctx ! p) \<noteq> TOPOLOGY_THREAD"
  using assms by (auto elim!: alloc_SomeE)

lemma in_child_masks:
  "x \<in> child_masks es i \<longleftrightarrow> (\<exists>c<length es. parent (es ! c) = Some i \<and> x \<in> ent_cpumask (es ! c))"
  by (auto simp: child_masks_def children_of_def)

lemma ents_okD:
  assumes "ents_ok ctx" "i < length (ents ctx)"
  shows "level_valid (level (ents ctx ! i))"
    "parent (ents ctx ! i) = Some p \<Longrightarrow> p < i \<and> level (ents ctx ! p) = level (ents ctx ! i) + 1"
    "parent (ents ctx ! i) = None \<Longrightarrow> level (ents ctx ! i) = TOPOLOGY_SYSTEM"
  using assms by (auto simp: ents_ok_def split: option.splits)

lemma ents_extend_refl [simp]: "ents_extend ctx ctx"
  by (simp add: ents_extend_def)

lemma ents_extend_trans: "ents_extend a b \<Longrightarrow> ents_extend b c \<Longrightarrow> ents_extend a c"
  by (auto simp: ents_extend_def)

lemma alloc_extend:
  "alloc_init_topo_procent ctx par ident = Some (ent, ctx') \<Longrightarrow> ents_extend ctx ctx'"
  by (simp add: ents_extend_def alloc_nth_old alloc_new(2))

lemma alloc_ents_ok:
  assumes a: "alloc_init_topo_procent ctx par ident = Some (ent, ctx')" and ok: "ents_ok ctx"
  shows "ents_ok ctx'"
  unfolding ents_ok_def
proof (intro allI impI)
  fix i assume i: "i < length (ents ctx')"
  show "level_valid (level (ents ctx' ! i)) \<and>
        (case parent (ents ctx' ! i) of
           None \<Rightarrow> level (ents ctx' ! i) = TOPOLOGY_SYSTEM
         | Some p \<Rightarrow> p < i \<and> level (ents ctx' ! p) = level (ents ctx' ! i) + 1)"
  proof (cases "i < length (ents ctx)")
    case True
    show ?thesis
    proof (cases "parent (ents ctx ! i)")
      case None
      with ents_okD(1,3) [OF ok True] show ?thesis
        by (simp add: alloc_nth_old [OF a True])
    next
      case (Some p)
      from ents_okD(2) [OF ok True Some] True have "p < length (ents ctx)" by simp
      with ents_okD(1,2) [OF ok True] Some show ?thesis
        by (simp add: alloc_nth_old [OF a True] alloc_nth_old [OF a \<open>p < length (ents ctx)\<close>])
    qed
  next
    case False
    with i have ie: "i = ent" by (simp add: alloc_new(1,2) [OF a])
    show ?thesis
    proof (cases par)
      case None
      from alloc_new(3,6) [OF a] show ?thesis
        unfolding ie None by (simp add: level_valid_def topology_level_defs)
    next
      case (Some p)
      from a Some have p: "p < length (ents ctx)" "level_valid (level (ents ctx ! p))"
        "level (ents ctx ! p) \<noteq> TOPOLOGY_THREAD"
        by (auto dest: alloc_parent_ok)
      then have "level_valid (level (ents ctx ! p) - 1)"
        by (simp add: level_valid_def topology_level_defs)
      with p alloc_new(1,3,6) [OF a] alloc_nth_old(1) [OF a p(1)] show ?thesis
        unfolding ie Some by simp
    qed
  qed
qed

lemma alloc_masks_ok:
  assumes a: "alloc_init_topo_procent ctx par ident = Some (ent, ctx')" and ok: "ents_ok ctx"
    and m: "masks_ok ctx"
  shows "masks_ok ctx'"
  unfolding masks_ok_def
proof (intro allI impI)
  fix i assume i: "i < length (ents ctx')" and "level (ents ctx' ! i) \<noteq> TOPOLOGY_THREAD"
  have ok': "ents_ok ctx'" using a ok by (rule alloc_ents_ok)
  have len: "length (ents ctx') = Suc (length (ents ctx))" by (rule alloc_new(2) [OF a])
  have cm: "child_masks (ents ctx') i = (if i < length (ents ctx) then child_masks (ents ctx) i else {})"
  proof (rule set_eqI)
    fix x
    have "(\<exists>c<length (ents ctx'). parent (ents ctx' ! c) = Some i \<and> x \<in> ent_cpumask (ents ctx' ! c))
      \<longleftrightarrow> (\<exists>c<length (ents ctx). parent (ents ctx' ! c) = Some i \<and> x \<in> ent_cpumask (ents ctx' ! c))"
      using alloc_new(1,5) [OF a] by (auto simp: len less_Suc_eq)
    also have "\<dots> \<longleftrightarrow> (\<exists>c<length (ents ctx). parent (ents ctx ! c) = Some i \<and> x \<in> ent_cpumask (ents ctx ! c))"
      by (auto simp: alloc_nth_old [OF a])
    also have "\<dots> \<longleftrightarrow> x \<in> (if i < length (ents ctx) then child_masks (ents ctx) i else {})"
    proof (cases "i < length (ents ctx)")
      case True
      then show ?thesis by (simp add: in_child_masks)
    next
      case False
      have "\<not> (c < length (ents ctx) \<and> parent (ents ctx ! c) = Some i)" for c
        using ents_okD(2) [OF ok, of c i] False by auto
      with False show ?thesis by auto
    qed
    finally show "x \<in> child_masks (ents ctx') i \<longleftrightarrow>
        x \<in> (if i < length (ents ctx) then child_masks (ents ctx) i else {})"
      by (simp add: in_child_masks)
  qed
  show "ent_cpumask (ents ctx' ! i) = child_masks (ents ctx') i"
  proof (cases "i < length (ents ctx)")
    case True
    with m \<open>level (ents ctx' ! i) \<noteq> TOPOLOGY_THREAD\<close> show ?thesis
      by (simp add: cm alloc_nth_old [OF a True] masks_ok_def)
  next
    case False
    with i have ie: "i = ent" by (simp add: alloc_new(1,2) [OF a])
    from cm False have "child_masks (ents ctx') i = {}" by simp
    with alloc_new(5) [OF a] show ?thesis unfolding ie by simp
  qed
qed

subsection \<open>Parent chains\<close>

lemma chain_transfer:
  assumes "on_parent_chain es t i" and "t < n" and "n \<le> length es" and "n \<le> length es'"
    and "\<forall>j<n. parent (es' ! j) = parent (es ! j)"
    and "\<forall>j<n. \<forall>p. parent (es ! j) = Some p \<longrightarrow> p < j"
  shows "on_parent_chain es' t i \<and> i < n"
  using assms
proof (induction rule: on_parent_chain.induct)
  case chain_self
  then show ?case by (simp add: on_parent_chain.chain_self)
next
  case (chain_step i p)
  then have i: "on_parent_chain es' t i" "i < n" by simp_all
  with chain_step have "p < i" "parent (es' ! i) = Some p" "i < length es'" by auto
  with i show ?case by (auto intro: on_parent_chain.chain_step)
qed

lemma ents_ok_decr:
  "ents_ok ctx \<Longrightarrow> \<forall>j<length (ents ctx). \<forall>p. parent (ents ctx ! j) = Some p \<longrightarrow> p < j"
  by (auto dest: ents_okD(2))

lemma chain_extend:
  assumes ok: "ents_ok ctx" and ext: "ents_extend ctx ctx'"
    and t: "t < length (ents ctx)" and c: "on_parent_chain (ents ctx) t i"
  shows "on_parent_chain (ents ctx') t i"
  using chain_transfer [OF c t le_refl, of "ents ctx'"] ext ents_ok_decr [OF ok]
  by (simp add: ents_extend_def)

lemma chain_in_range:
  assumes ok: "ents_ok ctx" and t: "t < length (ents ctx)" and c: "on_parent_chain (ents ctx) t i"
  shows "i \<le> t"
  using c
proof (induction rule: on_parent_chain.induct)
  case chain_self
  then show ?case by simp
next
  case (chain_step i p)
  with ents_okD(2) [OF ok] show ?case by fastforce
qed

lemma alloc_bits_ok:
  assumes a: "alloc_init_topo_procent ctx par ident = Some (ent, ctx')" and ok: "ents_ok ctx"
    and b: "bits_ok ctx"
  shows "bits_ok ctx'"
  unfolding bits_ok_def
proof (intro allI impI ballI)
  fix i x assume i: "i < length (ents ctx')" and x: "x \<in> ent_cpumask (ents ctx' ! i)"
  have ext: "ents_extend ctx ctx'" using a by (rule alloc_extend)
  have "i \<noteq> ent" using x alloc_new(5) [OF a] by auto
  with i have i': "i < length (ents ctx)" by (simp add: alloc_new(1,2) [OF a])
  with x have "x \<in> ent_cpumask (ents ctx ! i)" by (simp add: alloc_nth_old [OF a])
  with b i' obtain t where t: "t < length (ents ctx)" "level (ents ctx ! t) = TOPOLOGY_THREAD"
    "x = size_t_of_int (ent_id (ents ctx ! t))" "on_parent_chain (ents ctx) t i"
    unfolding bits_ok_def by blast
  from t(1) have "t < length (ents ctx')" by (simp add: alloc_new(2) [OF a])
  moreover note chain_extend [OF ok ext t(1,4)]
  ultimately show "\<exists>t<length (ents ctx'). level (ents ctx' ! t) = TOPOLOGY_THREAD \<and>
      x = size_t_of_int (ent_id (ents ctx' ! t)) \<and> on_parent_chain (ents ctx') t i"
    using t(1,2,3) by (auto simp: alloc_nth_old [OF a])
qed

lemma tables_ok_extend:
  assumes "tables_ok ctx" "ents_extend ctx ctx'"
    "package_htable ctx' = package_htable ctx" "core_htable ctx' = core_htable ctx"
  shows "tables_ok ctx'"
  using assms by (fastforce simp: tables_ok_def ents_extend_def)

lemma chain_trans:
  assumes "on_parent_chain es a b" "on_parent_chain es b c"
  shows "on_parent_chain es a c"
  using assms(2,1) by (induction rule: on_parent_chain.induct) (auto intro: on_parent_chain.chain_step)

lemma chain_root:
  assumes "on_parent_chain es t i" "parent (es ! t) = None"
  shows "i = t"
  using assms by (induction rule: on_parent_chain.induct) auto

lemma chain_unfold:
  assumes "t < length es" "parent (es ! t) = Some p"
  shows "on_parent_chain es t i \<longleftrightarrow> i = t \<or> on_parent_chain es p i"
proof
  assume "on_parent_chain es t i"
  then show "i = t \<or> on_parent_chain es p i"
  proof (induction rule: on_parent_chain.induct)
    case chain_self
    then show ?case by simp
  next
    case (chain_step i q)
    then show ?case
      using assms by (auto intro: on_parent_chain.intros)
  qed
next
  assume "i = t \<or> on_parent_chain es p i"
  moreover have "on_parent_chain es t p"
    using assms by (auto intro: on_parent_chain.intros)
  ultimately show "on_parent_chain es t i"
    by (auto intro: on_parent_chain.chain_self chain_trans)
qed

lemma ents_ok_eq:
  assumes "ents_ok c" "length (ents c') = length (ents c)"
    "\<forall>i<length (ents c). level (ents c' ! i) = level (ents c ! i) \<and>
        parent (ents c' ! i) = parent (ents c ! i)"
  shows "ents_ok c'"
  unfolding ents_ok_def
proof (intro allI impI)
  fix i assume "i < length (ents c')"
  with assms(2) have i: "i < length (ents c)" by simp
  show "level_valid (level (ents c' ! i)) \<and>
        (case parent (ents c' ! i) of
           None \<Rightarrow> level (ents c' ! i) = TOPOLOGY_SYSTEM
         | Some p \<Rightarrow> p < i \<and> level (ents c' ! p) = level (ents c' ! i) + 1)"
  proof (cases "parent (ents c ! i)")
    case None
    with ents_okD(1,3) [OF assms(1) i] assms(3) i show ?thesis by simp
  next
    case (Some p)
    from ents_okD(2) [OF assms(1) i Some] i have "p < length (ents c)" by simp
    with ents_okD(1,2) [OF assms(1) i] Some assms(3) i show ?thesis by simp
  qed
qed

lemma nth_update_field:
  assumes "\<And>x. f (g x) = f x"
  shows "f (es[t := g (es ! t)] ! i) = f (es ! i)"
proof (cases "t < length es")
  case True
  then show ?thesis by (cases "i = t") (simp_all add: assms)
next
  case False
  then have "es[t := g (es ! t)] = es" by (intro list_update_beyond) simp
  then show ?thesis by simp
qed

lemma mask_update_nth [simp]:
  "level (es[t := (es ! t)\<lparr>ent_cpumask := m\<rparr>] ! i) = level (es ! i)"
  "parent (es[t := (es ! t)\<lparr>ent_cpumask := m\<rparr>] ! i) = parent (es ! i)"
  "ent_id (es[t := (es ! t)\<lparr>ent_cpumask := m\<rparr>] ! i) = ent_id (es ! i)"
  "hash_key (es[t := (es ! t)\<lparr>ent_cpumask := m\<rparr>] ! i) = hash_key (es ! i)"
  using nth_update_field [of level "\<lambda>e. e\<lparr>ent_cpumask := m\<rparr>" es t i]
    nth_update_field [of parent "\<lambda>e. e\<lparr>ent_cpumask := m\<rparr>" es t i]
    nth_update_field [of ent_id "\<lambda>e. e\<lparr>ent_cpumask := m\<rparr>" es t i]
    nth_update_field [of hash_key "\<lambda>e. e\<lparr>ent_cpumask := m\<rparr>" es t i]
  by simp_all

lemma chain_cong_imp:
  assumes "on_parent_chain es t i" "length es' = length es"
    "\<And>j. j < length es \<Longrightarrow> parent (es' ! j) = parent (es ! j)"
  shows "on_parent_chain es' t i"
  using assms(1)
proof (induction rule: on_parent_chain.induct)
  case chain_self
  show ?case by (rule on_parent_chain.chain_self)
next
  case (chain_step i p)
  from chain_step(2,3) assms(2,3) have "i < length es'" "parent (es' ! i) = Some p" by simp_all
  with chain_step(4) show ?case by (rule on_parent_chain.chain_step)
qed

lemma chain_mask_update:
  "on_parent_chain (es[t := (es ! t)\<lparr>ent_cpumask := m\<rparr>]) p i \<longleftrightarrow> on_parent_chain es p i"
proof
  assume "on_parent_chain (es[t := (es ! t)\<lparr>ent_cpumask := m\<rparr>]) p i"
  then show "on_parent_chain es p i"
    by (rule chain_cong_imp) simp_all
next
  assume "on_parent_chain es p i"
  then show "on_parent_chain (es[t := (es ! t)\<lparr>ent_cpumask := m\<rparr>]) p i"
    by (rule chain_cong_imp) simp_all
qed

lemma cpumask_set_result:
  assumes "ents_ok ctx" "t < length (ents ctx)"
  shows "topo_procent_cpumask_set ctx t b = Some (ctx\<lparr>ents := set_chain_bit ctx t b\<rparr>)"
  using assms
proof (induction t arbitrary: ctx rule: less_induct)
  case (less t)
  let ?e = "ents ctx ! t"
  let ?e' = "?e\<lparr>ent_cpumask := CPU_SET_S (size_t_of_int b) (cpu_set_t_size ctx) (ent_cpumask ?e)\<rparr>"
  let ?ctx' = "ctx\<lparr>ents := (ents ctx)[t := ?e']\<rparr>"
  have pr: "procent ctx t = Some ?e" using less.prems(2) by (simp add: procent_def)
  show ?case
  proof (cases "parent ?e")
    case None
    have "(ents ctx)[t := ?e'] = set_chain_bit ctx t b"
    proof (rule nth_equalityI)
      show "length ((ents ctx)[t := ?e']) = length (set_chain_bit ctx t b)"
        by (simp add: set_chain_bit_def)
    next
      fix i assume "i < length ((ents ctx)[t := ?e'])"
      then have i: "i < length (ents ctx)" by simp
      have "on_parent_chain (ents ctx) t i \<longleftrightarrow> i = t"
        using chain_root [OF _ None] by (auto intro: on_parent_chain.chain_self)
      with i show "(ents ctx)[t := ?e'] ! i = set_chain_bit ctx t b ! i"
        by (simp add: set_chain_bit_def nth_list_update)
    qed
    with None pr show ?thesis
      by (subst topo_procent_cpumask_set.simps) (simp add: Let_def)
  next
    case (Some p)
    from ents_okD(2) [OF less.prems(1,2) Some] have pt: "p < t" by simp
    have ok': "ents_ok ?ctx'"
      using less.prems(1) by (rule ents_ok_eq) simp_all
    have p': "p < length (ents ?ctx')" using pt less.prems(2) by simp
    have ih: "topo_procent_cpumask_set ?ctx' p b = Some (?ctx'\<lparr>ents := set_chain_bit ?ctx' p b\<rparr>)"
      by (rule less.IH [OF pt ok' p'])
    have notp: "\<not> on_parent_chain (ents ctx) p t"
      using chain_in_range [OF less.prems(1), of p t] pt less.prems(2) by auto
    have "set_chain_bit ?ctx' p b = set_chain_bit ctx t b"
    proof (rule nth_equalityI)
      show "length (set_chain_bit ?ctx' p b) = length (set_chain_bit ctx t b)"
        by (simp add: set_chain_bit_def)
    next
      fix i assume "i < length (set_chain_bit ?ctx' p b)"
      then have i: "i < length (ents ctx)" by (simp add: set_chain_bit_def)
      show "set_chain_bit ?ctx' p b ! i = set_chain_bit ctx t b ! i"
      proof (cases "i = t")
        case True
        with i notp show ?thesis
          by (simp add: set_chain_bit_def chain_mask_update on_parent_chain.chain_self)
      next
        case False
        with i show ?thesis
          by (simp add: set_chain_bit_def chain_mask_update chain_unfold [OF less.prems(2) Some])
      qed
    qed
    with ih Some pr show ?thesis
      by (subst topo_procent_cpumask_set.simps) (simp add: Let_def)
  qed
qed

subsection \<open>Setting a bit along the parent chain\<close>

lemma set_chain_bit_length [simp]: "length (set_chain_bit ctx t b) = length (ents ctx)"
  by (simp add: set_chain_bit_def)

lemma set_chain_bit_nth:
  assumes "i < length (ents ctx)"
  shows "level (set_chain_bit ctx t b ! i) = level (ents ctx ! i)"
    "parent (set_chain_bit ctx t b ! i) = parent (ents ctx ! i)"
    "ent_id (set_chain_bit ctx t b ! i) = ent_id (ents ctx ! i)"
    "hash_key (set_chain_bit ctx t b ! i) = hash_key (ents ctx ! i)"
    "ent_cpumask (set_chain_bit ctx t b ! i) =
       (if on_parent_chain (ents ctx) t i
        then CPU_SET_S (size_t_of_int b) (cpu_set_t_size ctx) (ent_cpumask (ents ctx ! i))
        else ent_cpumask (ents ctx ! i))"
  using assms by (simp_all add: set_chain_bit_def)

lemma set_chain_bit_chain:
  "on_parent_chain (set_chain_bit ctx t b) u i \<longleftrightarrow> on_parent_chain (ents ctx) u i"
proof
  assume "on_parent_chain (set_chain_bit ctx t b) u i"
  then show "on_parent_chain (ents ctx) u i"
    by (rule chain_cong_imp) (simp_all add: set_chain_bit_nth)
next
  assume "on_parent_chain (ents ctx) u i"
  then show "on_parent_chain (set_chain_bit ctx t b) u i"
    by (rule chain_cong_imp) (simp_all add: set_chain_bit_nth)
qed

lemma set_chain_bit_ents_ok:
  "ents_ok ctx \<Longrightarrow> ents_ok (ctx\<lparr>ents := set_chain_bit ctx t b\<rparr>)"
  by (erule ents_ok_eq) (simp_all add: set_chain_bit_nth)

lemma set_chain_bit_extend: "ents_extend ctx (ctx\<lparr>ents := set_chain_bit ctx t b\<rparr>)"
  by (simp add: ents_extend_def set_chain_bit_nth)

lemma CPU_SET_S_Un: "CPU_SET_S c sz m = m \<union> (if c div 8 < sz then {c} else {})"
  by (simp add: CPU_SET_S_def)

lemma chain_pred:
  assumes "on_parent_chain es t i" "i \<noteq> t"
  shows "\<exists>c<length es. parent (es ! c) = Some i \<and> on_parent_chain es t c"
  using assms by (cases rule: on_parent_chain.cases) auto

lemma set_chain_bit_masks_ok:
  assumes ok: "ents_ok ctx" and m: "masks_ok ctx" and t: "t < length (ents ctx)"
    and lvl: "level (ents ctx ! t) = TOPOLOGY_THREAD"
  shows "masks_ok (ctx\<lparr>ents := set_chain_bit ctx t b\<rparr>)"
  unfolding masks_ok_def
proof (intro allI impI)
  let ?es = "ents ctx" and ?es' = "set_chain_bit ctx t b"
  let ?B = "if size_t_of_int b div 8 < cpu_set_t_size ctx then {size_t_of_int b} else {}"
  fix i
  assume "i < length (ents (ctx\<lparr>ents := ?es'\<rparr>))"
    and "level (ents (ctx\<lparr>ents := ?es'\<rparr>) ! i) \<noteq> TOPOLOGY_THREAD"
  then have i: "i < length ?es" and nt: "level (?es ! i) \<noteq> TOPOLOGY_THREAD"
    by (simp_all add: set_chain_bit_nth)
  from m i nt have old: "ent_cpumask (?es ! i) = child_masks ?es i"
    by (simp add: masks_ok_def)
  have "ent_cpumask (?es' ! i) = child_masks ?es' i"
  proof (cases "on_parent_chain ?es t i")
    case True
    from nt lvl have "i \<noteq> t" by auto
    from chain_pred [OF True this] obtain c where
      c: "c < length ?es" "parent (?es ! c) = Some i" "on_parent_chain ?es t c" by blast
    have "child_masks ?es' i = child_masks ?es i \<union> ?B"
    proof (rule set_eqI)
      fix x
      show "x \<in> child_masks ?es' i \<longleftrightarrow> x \<in> child_masks ?es i \<union> ?B"
        using c by (auto simp: in_child_masks set_chain_bit_nth CPU_SET_S_Un split: if_splits)
    qed
    with True i old show ?thesis by (simp add: set_chain_bit_nth CPU_SET_S_Un)
  next
    case False
    have nc: "\<not> on_parent_chain ?es t c" if "c < length ?es" "parent (?es ! c) = Some i" for c
      using False that by (auto intro: on_parent_chain.chain_step)
    have "child_masks ?es' i = child_masks ?es i"
    proof (rule set_eqI)
      fix x
      show "x \<in> child_masks ?es' i \<longleftrightarrow> x \<in> child_masks ?es i"
        using nc by (auto simp: in_child_masks set_chain_bit_nth)
    qed
    with False i old show ?thesis by (simp add: set_chain_bit_nth)
  qed
  then show "ent_cpumask (ents (ctx\<lparr>ents := ?es'\<rparr>) ! i) = child_masks (ents (ctx\<lparr>ents := ?es'\<rparr>)) i"
    by simp
qed

lemma set_chain_bit_bits_ok:
  assumes ok: "ents_ok ctx" and bo: "bits_ok ctx" and t: "t < length (ents ctx)"
    and lvl: "level (ents ctx ! t) = TOPOLOGY_THREAD" and id: "ent_id (ents ctx ! t) = b"
  shows "bits_ok (ctx\<lparr>ents := set_chain_bit ctx t b\<rparr>)"
  unfolding bits_ok_def
proof (intro allI impI ballI)
  let ?es = "ents ctx" and ?es' = "set_chain_bit ctx t b"
  fix i x
  assume "i < length (ents (ctx\<lparr>ents := ?es'\<rparr>))"
    and "x \<in> ent_cpumask (ents (ctx\<lparr>ents := ?es'\<rparr>) ! i)"
  then have i: "i < length ?es" and x: "x \<in> ent_cpumask (?es' ! i)" by simp_all
  have "\<exists>u<length ?es. level (?es ! u) = TOPOLOGY_THREAD \<and>
      x = size_t_of_int (ent_id (?es ! u)) \<and> on_parent_chain ?es u i"
  proof (cases "x \<in> ent_cpumask (?es ! i)")
    case True
    with bo i show ?thesis unfolding bits_ok_def by blast
  next
    case False
    with x i have "on_parent_chain ?es t i" "x = size_t_of_int b"
      by (auto simp: set_chain_bit_nth CPU_SET_S_Un split: if_splits)
    with t lvl id show ?thesis by blast
  qed
  then show "\<exists>u<length (ents (ctx\<lparr>ents := ?es'\<rparr>)).
      level (ents (ctx\<lparr>ents := ?es'\<rparr>) ! u) = TOPOLOGY_THREAD \<and>
      x = size_t_of_int (ent_id (ents (ctx\<lparr>ents := ?es'\<rparr>) ! u)) \<and>
      on_parent_chain (ents (ctx\<lparr>ents := ?es'\<rparr>)) u i"
    by (auto simp: set_chain_bit_nth set_chain_bit_chain)
qed

subsection \<open>The heap invariant under the steps of the build\<close>

lemma heap_inv_cong:
  assumes inv: "heap_inv ctx" and len: "length (ents ctx') = length (ents ctx)"
    and same: "\<And>i. i < length (ents ctx) \<Longrightarrow>
        level (ents ctx' ! i) = level (ents ctx ! i) \<and>
        parent (ents ctx' ! i) = parent (ents ctx ! i) \<and>
        ent_id (ents ctx' ! i) = ent_id (ents ctx ! i) \<and>
        ent_cpumask (ents ctx' ! i) = ent_cpumask (ents ctx ! i)"
    and tabs: "package_htable ctx' = package_htable ctx" "core_htable ctx' = core_htable ctx"
  shows "heap_inv ctx'"
proof -
  from inv have ok: "ents_ok ctx" and m: "masks_ok ctx" and b: "bits_ok ctx" and tb: "tables_ok ctx"
    by (simp_all add: heap_inv_def)
  have ok': "ents_ok ctx'"
    using ok len same by (intro ents_ok_eq [of ctx ctx']) simp_all
  have cm: "child_masks (ents ctx') i = child_masks (ents ctx) i" for i
    by (rule set_eqI) (auto simp: in_child_masks len same)
  have m': "masks_ok ctx'"
    using m by (simp add: masks_ok_def len same cm)
  have ch: "on_parent_chain (ents ctx') t i" if "on_parent_chain (ents ctx) t i" for t i
    using that len by (rule chain_cong_imp) (simp add: same)
  have b': "bits_ok ctx'"
    unfolding bits_ok_def
  proof (intro allI impI ballI)
    fix i x assume "i < length (ents ctx')" "x \<in> ent_cpumask (ents ctx' ! i)"
    then have "i < length (ents ctx)" "x \<in> ent_cpumask (ents ctx ! i)" by (simp_all add: len same)
    with b obtain t where "t < length (ents ctx)" "level (ents ctx ! t) = TOPOLOGY_THREAD"
      "x = size_t_of_int (ent_id (ents ctx ! t))" "on_parent_chain (ents ctx) t i"
      unfolding bits_ok_def by blast
    then show "\<exists>t<length (ents ctx'). level (ents ctx' ! t) = TOPOLOGY_THREAD \<and>
        x = size_t_of_int (ent_id (ents ctx' ! t)) \<and> on_parent_chain (ents ctx') t i"
      using ch by (auto simp: len same)
  qed
  have ext: "ents_extend ctx ctx'" by (simp add: ents_extend_def len same)
  have "tables_ok ctx'" using tb ext tabs by (rule tables_ok_extend)
  with ok' m' b' show ?thesis by (simp add: heap_inv_def)
qed

lemma alloc_heap_inv:
  assumes a: "alloc_init_topo_procent ctx par ident = Some (ent, ctx')" and inv: "heap_inv ctx"
  shows "heap_inv ctx'"
proof -
  from inv have ok: "ents_ok ctx" by (simp add: heap_inv_def)
  have "tables_ok ctx'"
    using inv alloc_extend [OF a] alloc_frame(3,4) [OF a]
    by (auto simp: heap_inv_def intro: tables_ok_extend)
  with inv alloc_ents_ok [OF a ok] alloc_masks_ok [OF a ok] alloc_bits_ok [OF a ok]
  show ?thesis by (simp add: heap_inv_def)
qed

lemma cpumask_set_heap_inv:
  assumes inv: "heap_inv ctx" and t: "t < length (ents ctx)"
    and lvl: "level (ents ctx ! t) = TOPOLOGY_THREAD" and id: "ent_id (ents ctx ! t) = b"
    and run: "topo_procent_cpumask_set ctx t b = Some ctx'"
  shows "heap_inv ctx'" "ents_extend ctx ctx'" "ctx' = ctx\<lparr>ents := set_chain_bit ctx t b\<rparr>"
proof -
  from inv have ok: "ents_ok ctx" and m: "masks_ok ctx" and b: "bits_ok ctx" and tb: "tables_ok ctx"
    by (simp_all add: heap_inv_def)
  from run cpumask_set_result [OF ok t, of b]
  show eq: "ctx' = ctx\<lparr>ents := set_chain_bit ctx t b\<rparr>" by simp
  show ext: "ents_extend ctx ctx'" unfolding eq by (rule set_chain_bit_extend)
  have "tables_ok ctx'" using tb ext by (rule tables_ok_extend) (simp_all add: eq)
  with set_chain_bit_ents_ok [OF ok] set_chain_bit_masks_ok [OF ok m t lvl]
    set_chain_bit_bits_ok [OF ok b t lvl id]
  show "heap_inv ctx'" by (simp add: heap_inv_def eq)
qed

lemma set_hash_key_nth:
  "level (ents (set_hash_key ctx e k) ! i) = level (ents ctx ! i)"
  "parent (ents (set_hash_key ctx e k) ! i) = parent (ents ctx ! i)"
  "ent_id (ents (set_hash_key ctx e k) ! i) = ent_id (ents ctx ! i)"
  "ent_cpumask (ents (set_hash_key ctx e k) ! i) = ent_cpumask (ents ctx ! i)"
  "length (ents (set_hash_key ctx e k)) = length (ents ctx)"
  using nth_update_field [of level "\<lambda>x. x\<lparr>hash_key := Some k\<rparr>" "ents ctx" e i]
    nth_update_field [of parent "\<lambda>x. x\<lparr>hash_key := Some k\<rparr>" "ents ctx" e i]
    nth_update_field [of ent_id "\<lambda>x. x\<lparr>hash_key := Some k\<rparr>" "ents ctx" e i]
    nth_update_field [of ent_cpumask "\<lambda>x. x\<lparr>hash_key := Some k\<rparr>" "ents ctx" e i]
  by (simp_all add: set_hash_key_def)

lemma set_hash_key_frame:
  "sysfs_root (set_hash_key ctx e k) = sysfs_root ctx"
  "cpu_set_t_size (set_hash_key ctx e k) = cpu_set_t_size ctx"
  "core_htable (set_hash_key ctx e k) = core_htable ctx"
  "package_htable (set_hash_key ctx e k) = package_htable ctx"
  "devices (set_hash_key ctx e k) = devices ctx"
  "device_htable (set_hash_key ctx e k) = device_htable ctx"
  "system (set_hash_key ctx e k) = system ctx"
  by (simp_all add: set_hash_key_def)

lemma set_hash_key_heap_inv: "heap_inv ctx \<Longrightarrow> heap_inv (set_hash_key ctx e k)"
  by (erule heap_inv_cong) (simp_all add: set_hash_key_nth set_hash_key_frame)

lemma set_hash_key_extend: "ents_extend ctx (set_hash_key ctx e k)"
  by (simp add: ents_extend_def set_hash_key_nth)

lemma htable_lookup_None_iff: "htable_lookup htab key = None \<longleftrightarrow> key \<notin> fst ` set (tbl htab)"
  by (simp add: htable_lookup_def map_of_eq_None_iff)

lemma htable_insert_SomeD:
  assumes "htable_insert htab key data = Some (rc, htab')"
  shows "rc = 0" "set (tbl htab') \<subseteq> insert (key, data) (set (tbl htab))"
    "set (tbl htab) \<subseteq> set (tbl htab')" "htable_lookup htab' key \<noteq> None"
    "htable_lookup htab key = None \<Longrightarrow> htable_lookup htab' key = Some data"
    "htable_lookup htab k = Some v \<Longrightarrow> htable_lookup htab' k = Some v"
    "count htab < maxsize htab" "count htab' = Suc (count htab)" "maxsize htab' = maxsize htab"
proof -
  from assms have c: "count htab < maxsize htab" and rc: "rc = 0"
    and h: "htab' = htab\<lparr>count := count htab + 1,
        tbl := (if key \<in> fst ` set (tbl htab) then tbl htab else tbl htab @ [(key, data)])\<rparr>"
    by (auto simp: htable_insert_def split: if_splits)
  show "rc = 0" by (rule rc)
  show "count htab < maxsize htab" by (rule c)
  show "count htab' = Suc (count htab)" "maxsize htab' = maxsize htab"
    "set (tbl htab') \<subseteq> insert (key, data) (set (tbl htab))" "set (tbl htab) \<subseteq> set (tbl htab')"
    by (auto simp: h)
  show "htable_lookup htab' key \<noteq> None"
    by (auto simp: htable_lookup_None_iff h)
  show "htable_lookup htab' key = Some data" if "htable_lookup htab key = None"
  proof -
    from that have "key \<notin> fst ` set (tbl htab)" by (simp add: htable_lookup_None_iff)
    then show ?thesis using that by (simp add: h htable_lookup_def map_add_def)
  qed
  show "htable_lookup htab' k = Some v" if "htable_lookup htab k = Some v"
    using that by (simp add: h htable_lookup_def map_add_def)
qed

lemma find_or_add_package_cases:
  assumes "find_or_add_package ctx node cpu sib = Some (rc, pkg, ctx')"
  obtains (found) "htable_lookup (package_htable ctx) sib = Some pkg" "ctx' = ctx" "rc = 0"
  | (added) ctx1 htab where "htable_lookup (package_htable ctx) sib = None"
      "alloc_init_topo_procent ctx (Some node) cpu = Some (pkg, ctx1)"
      "htable_insert (package_htable ctx1) sib pkg = Some (0, htab)"
      "ctx' = (set_hash_key ctx1 pkg sib)\<lparr>package_htable := htab\<rparr>" "rc = 0"
proof (cases "htable_lookup (package_htable ctx) sib")
  case (Some p)
  with assms show ?thesis by (intro found) (simp_all add: find_or_add_package_def)
next
  case None
  with assms obtain ctx1 htab where
    a: "alloc_init_topo_procent ctx (Some node) cpu = Some (pkg, ctx1)"
    and h: "htable_insert (package_htable (set_hash_key ctx1 pkg sib)) sib pkg = Some (rc, htab)"
    and c: "ctx' = (set_hash_key ctx1 pkg sib)\<lparr>package_htable := htab\<rparr>"
    by (auto simp: find_or_add_package_def Let_def split: option.splits)
  from h have "rc = 0" by (rule htable_insert_SomeD(1))
  with None a h c show ?thesis by (intro added) (simp_all add: set_hash_key_frame)
qed

lemma find_or_add_core_cases:
  assumes "find_or_add_core ctx pkg cpu sib = Some (rc, core, ctx')"
  obtains (found) "htable_lookup (core_htable ctx) sib = Some core" "ctx' = ctx" "rc = 0"
  | (added) ctx1 htab where "htable_lookup (core_htable ctx) sib = None"
      "alloc_init_topo_procent ctx (Some pkg) cpu = Some (core, ctx1)"
      "htable_insert (core_htable ctx1) sib core = Some (0, htab)"
      "ctx' = (set_hash_key ctx1 core sib)\<lparr>core_htable := htab\<rparr>" "rc = 0"
proof (cases "htable_lookup (core_htable ctx) sib")
  case (Some p)
  with assms show ?thesis by (intro found) (simp_all add: find_or_add_core_def)
next
  case None
  with assms obtain ctx1 htab where
    a: "alloc_init_topo_procent ctx (Some pkg) cpu = Some (core, ctx1)"
    and h: "htable_insert (core_htable (set_hash_key ctx1 core sib)) sib core = Some (rc, htab)"
    and c: "ctx' = (set_hash_key ctx1 core sib)\<lparr>core_htable := htab\<rparr>"
    by (auto simp: find_or_add_core_def Let_def split: option.splits)
  from h have "rc = 0" by (rule htable_insert_SomeD(1))
  with None a h c show ?thesis by (intro added) (simp_all add: set_hash_key_frame)
qed

lemma htable_lookup_in_tbl: "htable_lookup htab k = Some v \<Longrightarrow> (k, v) \<in> set (tbl htab)"
  by (simp add: htable_lookup_def map_of_SomeD)

lemma heap_inv_table_update:
  assumes "heap_inv ctx"
  shows "(\<forall>(k, p)\<in>set (tbl htab). p < length (ents ctx) \<and> level (ents ctx ! p) = TOPOLOGY_PACKAGE)
      \<Longrightarrow> heap_inv (ctx\<lparr>package_htable := htab\<rparr>)"
    "(\<forall>(k, p)\<in>set (tbl htab). p < length (ents ctx) \<and> level (ents ctx ! p) = TOPOLOGY_CORE)
      \<Longrightarrow> heap_inv (ctx\<lparr>core_htable := htab\<rparr>)"
  using assms
  by (simp_all add: heap_inv_def ents_ok_def masks_ok_def bits_ok_def tables_ok_def
      cong: option.case_cong)

lemma find_or_add_package_inv:
  assumes run: "find_or_add_package ctx node cpu sib = Some (rc, pkg, ctx')"
    and inv: "heap_inv ctx" and node: "level (ents ctx ! node) = TOPOLOGY_NODE"
  shows "heap_inv ctx'" "ents_extend ctx ctx'" "pkg < length (ents ctx')"
    "level (ents ctx' ! pkg) = TOPOLOGY_PACKAGE" "rc = 0"
    "htable_lookup (package_htable ctx') sib = Some pkg"
    "devices ctx' = devices ctx" "device_htable ctx' = device_htable ctx"
    "core_htable ctx' = core_htable ctx" "sysfs_root ctx' = sysfs_root ctx"
    "cpu_set_t_size ctx' = cpu_set_t_size ctx" "system ctx' = system ctx"
proof -
  from run have "heap_inv ctx' \<and> ents_extend ctx ctx' \<and> pkg < length (ents ctx') \<and>
    level (ents ctx' ! pkg) = TOPOLOGY_PACKAGE \<and> rc = 0 \<and>
    htable_lookup (package_htable ctx') sib = Some pkg \<and>
    devices ctx' = devices ctx \<and> device_htable ctx' = device_htable ctx \<and>
    core_htable ctx' = core_htable ctx \<and> sysfs_root ctx' = sysfs_root ctx \<and>
    cpu_set_t_size ctx' = cpu_set_t_size ctx \<and> system ctx' = system ctx"
  proof (cases rule: find_or_add_package_cases)
    case found
    from htable_lookup_in_tbl [OF found(1)] inv
    have "pkg < length (ents ctx) \<and> level (ents ctx ! pkg) = TOPOLOGY_PACKAGE"
      by (auto simp: heap_inv_def tables_ok_def)
    with found inv show ?thesis by simp
  next
    case (added ctx1 htab)
    let ?ctx2 = "set_hash_key ctx1 pkg sib"
    have inv2: "heap_inv ?ctx2"
      using alloc_heap_inv [OF added(2) inv] by (rule set_hash_key_heap_inv)
    have ext: "ents_extend ctx ?ctx2"
      using alloc_extend [OF added(2)] set_hash_key_extend by (rule ents_extend_trans)
    have pk: "pkg < length (ents ?ctx2)" "level (ents ?ctx2 ! pkg) = TOPOLOGY_PACKAGE"
      using alloc_new [OF added(2)] node
      by (simp_all add: set_hash_key_nth topology_level_defs)
    from inv2 have "\<forall>(k, p)\<in>set (tbl (package_htable ?ctx2)).
        p < length (ents ?ctx2) \<and> level (ents ?ctx2 ! p) = TOPOLOGY_PACKAGE"
      by (simp add: heap_inv_def tables_ok_def)
    with htable_insert_SomeD(2) [OF added(3)] pk
    have "\<forall>(k, p)\<in>set (tbl htab). p < length (ents ?ctx2) \<and> level (ents ?ctx2 ! p) = TOPOLOGY_PACKAGE"
      by (auto simp: set_hash_key_frame alloc_frame [OF added(2)])
    from heap_inv_table_update(1) [OF inv2 this] have "heap_inv ctx'" by (simp add: added(4))
    moreover have "ents_extend ctx ctx'" using ext by (simp add: added(4) ents_extend_def)
    moreover have "htable_lookup (package_htable ctx') sib = Some pkg"
      using htable_insert_SomeD(5) [OF added(3)] added(1)
      by (simp add: added(4) alloc_frame [OF added(2)])
    ultimately show ?thesis
      using pk added(5) by (simp add: added(4) set_hash_key_frame alloc_frame [OF added(2)])
  qed
  then show "heap_inv ctx'" "ents_extend ctx ctx'" "pkg < length (ents ctx')"
    "level (ents ctx' ! pkg) = TOPOLOGY_PACKAGE" "rc = 0"
    "htable_lookup (package_htable ctx') sib = Some pkg"
    "devices ctx' = devices ctx" "device_htable ctx' = device_htable ctx"
    "core_htable ctx' = core_htable ctx" "sysfs_root ctx' = sysfs_root ctx"
    "cpu_set_t_size ctx' = cpu_set_t_size ctx" "system ctx' = system ctx"
    by simp_all
qed

lemma find_or_add_core_inv:
  assumes run: "find_or_add_core ctx pkg0 cpu sib = Some (rc, core, ctx')"
    and inv: "heap_inv ctx" and node: "level (ents ctx ! pkg0) = TOPOLOGY_PACKAGE"
  shows "heap_inv ctx'" "ents_extend ctx ctx'" "core < length (ents ctx')"
    "level (ents ctx' ! core) = TOPOLOGY_CORE" "rc = 0"
    "htable_lookup (core_htable ctx') sib = Some core"
    "devices ctx' = devices ctx" "device_htable ctx' = device_htable ctx"
    "package_htable ctx' = package_htable ctx" "sysfs_root ctx' = sysfs_root ctx"
    "cpu_set_t_size ctx' = cpu_set_t_size ctx" "system ctx' = system ctx"
proof -
  from run have "heap_inv ctx' \<and> ents_extend ctx ctx' \<and> core < length (ents ctx') \<and>
    level (ents ctx' ! core) = TOPOLOGY_CORE \<and> rc = 0 \<and>
    htable_lookup (core_htable ctx') sib = Some core \<and>
    devices ctx' = devices ctx \<and> device_htable ctx' = device_htable ctx \<and>
    package_htable ctx' = package_htable ctx \<and> sysfs_root ctx' = sysfs_root ctx \<and>
    cpu_set_t_size ctx' = cpu_set_t_size ctx \<and> system ctx' = system ctx"
  proof (cases rule: find_or_add_core_cases)
    case found
    from htable_lookup_in_tbl [OF found(1)] inv
    have "core < length (ents ctx) \<and> level (ents ctx ! core) = TOPOLOGY_CORE"
      by (auto simp: heap_inv_def tables_ok_def)
    with found inv show ?thesis by simp
  next
    case (added ctx1 htab)
    let ?ctx2 = "set_hash_key ctx1 core sib"
    have inv2: "heap_inv ?ctx2"
      using alloc_heap_inv [OF added(2) inv] by (rule set_hash_key_heap_inv)
    have ext: "ents_extend ctx ?ctx2"
      using alloc_extend [OF added(2)] set_hash_key_extend by (rule ents_extend_trans)
    have pk: "core < length (ents ?ctx2)" "level (ents ?ctx2 ! core) = TOPOLOGY_CORE"
      using alloc_new [OF added(2)] node
      by (simp_all add: set_hash_key_nth topology_level_defs)
    from inv2 have "\<forall>(k, p)\<in>set (tbl (core_htable ?ctx2)).
        p < length (ents ?ctx2) \<and> level (ents ?ctx2 ! p) = TOPOLOGY_CORE"
      by (simp add: heap_inv_def tables_ok_def)
    with htable_insert_SomeD(2) [OF added(3)] pk
    have "\<forall>(k, p)\<in>set (tbl htab). p < length (ents ?ctx2) \<and> level (ents ?ctx2 ! p) = TOPOLOGY_CORE"
      by (auto simp: set_hash_key_frame alloc_frame [OF added(2)])
    from heap_inv_table_update(2) [OF inv2 this] have "heap_inv ctx'" by (simp add: added(4))
    moreover have "ents_extend ctx ctx'" using ext by (simp add: added(4) ents_extend_def)
    moreover have "htable_lookup (core_htable ctx') sib = Some core"
      using htable_insert_SomeD(5) [OF added(3)] added(1)
      by (simp add: added(4) alloc_frame [OF added(2)])
    ultimately show ?thesis
      using pk added(5) by (simp add: added(4) set_hash_key_frame alloc_frame [OF added(2)])
  qed
  then show "heap_inv ctx'" "ents_extend ctx ctx'" "core < length (ents ctx')"
    "level (ents ctx' ! core) = TOPOLOGY_CORE" "rc = 0"
    "htable_lookup (core_htable ctx') sib = Some core"
    "devices ctx' = devices ctx" "device_htable ctx' = device_htable ctx"
    "package_htable ctx' = package_htable ctx" "sysfs_root ctx' = sysfs_root ctx"
    "cpu_set_t_size ctx' = cpu_set_t_size ctx" "system ctx' = system ctx"
    by simp_all
qed

subsection \<open>Cache discovery leaves the entity heap alone\<close>

lemma heap_same_refl [simp]: "heap_same ctx ctx"
  by (simp add: heap_same_def)

lemma heap_same_trans: "heap_same a b \<Longrightarrow> heap_same b c \<Longrightarrow> heap_same a c"
  by (simp add: heap_same_def)

lemma heap_same_inv: "heap_same ctx ctx' \<Longrightarrow> heap_inv ctx \<Longrightarrow> heap_inv ctx'"
  by (rule heap_inv_cong) (simp_all add: heap_same_def)

lemma heap_same_extend: "heap_same ctx ctx' \<Longrightarrow> ents_extend ctx ctx'"
  by (simp add: heap_same_def ents_extend_def)

lemma hash_device_frame:
  assumes "hash_device ctx dev = Some (rc, ctx')"
  shows "heap_same ctx ctx'" "devices ctx' = devices ctx"
  using assms
  by (auto simp: hash_device_def heap_same_def Let_def split: option.splits if_splits prod.splits)

lemma register_frame:
  "heap_same ctx (topo_device_register ctx dev)"
  "device_htable (topo_device_register ctx dev) = device_htable ctx"
  "devices (topo_device_register ctx dev) = dev # devices ctx"
  by (simp_all add: topo_device_register_def heap_same_def)

lemma get_cache_info_loop_cases:
  assumes "get_cache_info_loop fs ctx cpu (Suc n) idx = Some (rc, ctx')"
  obtains
    (info_err) "fst (get_cache_info_index fs ctx (alloc_topo_device ctx ''cache'') cpu (int idx)) \<noteq> 0"
      "rc = 1" "ctx' = ctx"
  | (hash_err) cache1 where
      "get_cache_info_index fs ctx (alloc_topo_device ctx ''cache'') cpu (int idx) = (0, cache1)"
      "fst (cache_build_hash cache1) \<noteq> 0" "rc = 1" "ctx' = ctx"
  | (seen) cache1 cache2 key where
      "get_cache_info_index fs ctx (alloc_topo_device ctx ''cache'') cpu (int idx) = (0, cache1)"
      "cache_build_hash cache1 = (0, cache2)" "dev_hash_key cache2 = Some key"
      "htable_lookup (device_htable ctx) key \<noteq> None"
      "get_cache_info_loop fs ctx cpu n (Suc idx) = Some (rc, ctx')"
  | (table_err) cache1 cache2 key rc3 where
      "get_cache_info_index fs ctx (alloc_topo_device ctx ''cache'') cpu (int idx) = (0, cache1)"
      "cache_build_hash cache1 = (0, cache2)" "dev_hash_key cache2 = Some key"
      "htable_lookup (device_htable ctx) key = None"
      "hash_device ctx cache2 = Some (rc3, ctx')" "rc3 \<noteq> 0" "rc = 1"
  | (registered) cache1 cache2 key ctx1 where
      "get_cache_info_index fs ctx (alloc_topo_device ctx ''cache'') cpu (int idx) = (0, cache1)"
      "cache_build_hash cache1 = (0, cache2)" "dev_hash_key cache2 = Some key"
      "htable_lookup (device_htable ctx) key = None"
      "hash_device ctx cache2 = Some (0, ctx1)"
      "get_cache_info_loop fs (topo_device_register ctx1 cache2) cpu n (Suc idx) = Some (rc, ctx')"
proof -
  obtain rc1 cache1 where i: "get_cache_info_index fs ctx (alloc_topo_device ctx ''cache'') cpu (int idx) = (rc1, cache1)"
    by (cases "get_cache_info_index fs ctx (alloc_topo_device ctx ''cache'') cpu (int idx)")
  obtain rc2 cache2 where b: "cache_build_hash cache1 = (rc2, cache2)"
    by (cases "cache_build_hash cache1")
  show ?thesis
  proof (cases "rc1 = 0")
    case False
    with assms i show ?thesis by (intro info_err) (simp_all add: Let_def)
  next
    case rc1: True
    show ?thesis
    proof (cases "rc2 = 0")
      case False
      with assms i b rc1 show ?thesis by (intro hash_err [of cache1]) (simp_all add: Let_def)
    next
      case rc2: True
      from assms i b rc1 rc2 obtain key where k: "dev_hash_key cache2 = Some key"
        by (cases "dev_hash_key cache2") (simp_all add: Let_def)
      show ?thesis
      proof (cases "htable_lookup (device_htable ctx) key")
        case (Some d)
        with assms i b rc1 rc2 k show ?thesis
          by (intro seen [of cache1 cache2 key]) (simp_all add: Let_def)
      next
        case None
        with assms i b rc1 rc2 k obtain rc3 ctx1 where h: "hash_device ctx cache2 = Some (rc3, ctx1)"
          by (cases "hash_device ctx cache2") (auto simp: Let_def)
        show ?thesis
        proof (cases "rc3 = 0")
          case True
          with assms i b rc1 rc2 k None h show ?thesis
            by (intro registered [of cache1 cache2 key ctx1]) (simp_all add: Let_def)
        next
          case False
          with assms i b rc1 rc2 k None h show ?thesis
            by (intro table_err [of cache1 cache2 key rc3]) (simp_all add: Let_def)
        qed
      qed
    qed
  qed
qed

lemma get_cache_info_loop_frame:
  "get_cache_info_loop fs ctx cpu n idx = Some (rc, ctx') \<Longrightarrow> heap_same ctx ctx'"
proof (induction n arbitrary: ctx idx)
  case 0
  then show ?case by simp
next
  case (Suc n)
  from Suc.prems show ?case
  proof (cases rule: get_cache_info_loop_cases)
    case (seen cache1 cache2 key)
    then show ?thesis by (intro Suc.IH)
  next
    case (table_err cache1 cache2 key rc3)
    then show ?thesis by (intro hash_device_frame(1))
  next
    case (registered cache1 cache2 key ctx1)
    from hash_device_frame(1) [OF registered(5)] register_frame(1) [of ctx1 cache2]
      Suc.IH [OF registered(6)]
    show ?thesis by (blast intro: heap_same_trans)
  qed simp_all
qed

lemma get_cache_info_frame:
  "get_cache_info fs ctx thread = Some (rc, ctx') \<Longrightarrow> heap_same ctx ctx'"
  by (auto simp: get_cache_info_def Let_def split: option.splits if_splits
      dest: get_cache_info_loop_frame)

subsection \<open>One CPU\<close>

lemma find_or_add_rc:
  "find_or_add_package ctx node cpu sib = Some (rc, pkg, ctx') \<Longrightarrow> rc = 0"
  "find_or_add_core ctx p cpu sib = Some (rc, core, ctx') \<Longrightarrow> rc = 0"
  by (erule find_or_add_package_cases; simp) (erule find_or_add_core_cases; simp)

lemma do_one_cpu_cases:
  assumes "do_one_cpu fs ctx node cpu = Some (rc, ctx')"
  obtains pkg ctx1 core ctx2 thread ctx3 ctx4 rc5 where
    "find_or_add_package ctx node cpu (sysfs_cpu_core_siblings fs (sysfs_root ctx) cpu)
       = Some (0, pkg, ctx1)"
    "find_or_add_core ctx1 pkg cpu (sysfs_cpu_thread_siblings fs (sysfs_root ctx1) cpu)
       = Some (0, core, ctx2)"
    "alloc_init_topo_procent ctx2 (Some core) cpu = Some (thread, ctx3)"
    "topo_procent_cpumask_set ctx3 thread cpu = Some ctx4"
    "get_cache_info fs ctx4 thread = Some (rc5, ctx')" "rc = 0"
proof -
  from assms obtain rcp pkg ctx1 where
    p: "find_or_add_package ctx node cpu (sysfs_cpu_core_siblings fs (sysfs_root ctx) cpu)
       = Some (rcp, pkg, ctx1)"
    by (cases "find_or_add_package ctx node cpu (sysfs_cpu_core_siblings fs (sysfs_root ctx) cpu)")
       (auto simp: do_one_cpu_def)
  from p have rcp: "rcp = 0" by (rule find_or_add_rc)
  from assms p rcp obtain rcc core ctx2 where
    c: "find_or_add_core ctx1 pkg cpu (sysfs_cpu_thread_siblings fs (sysfs_root ctx1) cpu)
       = Some (rcc, core, ctx2)"
    by (cases "find_or_add_core ctx1 pkg cpu (sysfs_cpu_thread_siblings fs (sysfs_root ctx1) cpu)")
       (auto simp: do_one_cpu_def)
  from c have rcc: "rcc = 0" by (rule find_or_add_rc)
  from assms p rcp c rcc obtain thread ctx3 where
    t: "alloc_init_topo_procent ctx2 (Some core) cpu = Some (thread, ctx3)"
    by (cases "alloc_init_topo_procent ctx2 (Some core) cpu") (auto simp: do_one_cpu_def)
  from assms p rcp c rcc t obtain ctx4 where
    m: "topo_procent_cpumask_set ctx3 thread cpu = Some ctx4"
    by (cases "topo_procent_cpumask_set ctx3 thread cpu") (auto simp: do_one_cpu_def)
  from assms p rcp c rcc t m obtain rc5 where
    g: "get_cache_info fs ctx4 thread = Some (rc5, ctx')" and "rc = 0"
    by (cases "get_cache_info fs ctx4 thread") (auto simp: do_one_cpu_def)
  with p c t m rcp rcc show ?thesis by (intro that) simp_all
qed

lemma do_one_cpu_heap_inv:
  assumes run: "do_one_cpu fs ctx node cpu = Some (rc, ctx')"
    and inv: "heap_inv ctx" and node: "level (ents ctx ! node) = TOPOLOGY_NODE"
      "node < length (ents ctx)"
  shows "heap_inv ctx'" "ents_extend ctx ctx'" "sysfs_root ctx' = sysfs_root ctx"
    "cpu_set_t_size ctx' = cpu_set_t_size ctx" "system ctx' = system ctx" "rc = 0"
proof -
  from run obtain pkg ctx1 core ctx2 thread ctx3 ctx4 rc5 where
    p: "find_or_add_package ctx node cpu (sysfs_cpu_core_siblings fs (sysfs_root ctx) cpu)
       = Some (0, pkg, ctx1)"
    and c: "find_or_add_core ctx1 pkg cpu (sysfs_cpu_thread_siblings fs (sysfs_root ctx1) cpu)
       = Some (0, core, ctx2)"
    and t: "alloc_init_topo_procent ctx2 (Some core) cpu = Some (thread, ctx3)"
    and m: "topo_procent_cpumask_set ctx3 thread cpu = Some ctx4"
    and g: "get_cache_info fs ctx4 thread = Some (rc5, ctx')" and rc: "rc = 0"
    by (rule do_one_cpu_cases)
  note P = find_or_add_package_inv [OF p inv node(1)]
  note C = find_or_add_core_inv [OF c P(1) P(4)]
  have inv3: "heap_inv ctx3" using t C(1) by (rule alloc_heap_inv)
  have th: "thread < length (ents ctx3)" "level (ents ctx3 ! thread) = TOPOLOGY_THREAD"
    "ent_id (ents ctx3 ! thread) = cpu"
    using alloc_new [OF t] C(4) by (simp_all add: topology_level_defs)
  note M = cpumask_set_heap_inv [OF inv3 th m]
  note G = get_cache_info_frame [OF g]
  show "heap_inv ctx'" using G M(1) by (rule heap_same_inv)
  show "ents_extend ctx ctx'"
    using P(2) C(2) alloc_extend [OF t] M(2) heap_same_extend [OF G]
    by (blast intro: ents_extend_trans)
  show "sysfs_root ctx' = sysfs_root ctx" "cpu_set_t_size ctx' = cpu_set_t_size ctx"
    "system ctx' = system ctx"
    using G P(10,11,12) C(10,11,12) alloc_frame(1,2,7) [OF t]
    by (simp_all add: heap_same_def M(3))
  show "rc = 0" by (rule rc)
qed

subsection \<open>The devices under cache discovery\<close>

lemma rehash_props:
  assumes "rehash htab devs = Some (rc, htab')"
  shows "rc = 0 \<and>
    (\<forall>d\<in>set devs. \<exists>k. dev_hash_key d = Some k \<and> htable_lookup htab' k \<noteq> None) \<and>
    (\<forall>k. htable_lookup htab k \<noteq> None \<longrightarrow> htable_lookup htab' k \<noteq> None)"
  using assms
proof (induction devs arbitrary: htab)
  case Nil
  then show ?case by simp
next
  case (Cons d devs)
  from Cons.prems obtain key where k: "dev_hash_key d = Some key"
    by (cases "dev_hash_key d") simp_all
  with Cons.prems obtain rc1 htab1 where i: "htable_insert htab key d = Some (rc1, htab1)"
    by (cases "htable_insert htab key d") auto
  note I = htable_insert_SomeD [OF i]
  from Cons.prems k i I(1) have "rehash htab1 devs = Some (rc, htab')" by simp
  note IH = Cons.IH [OF this]
  have "htable_lookup htab' key \<noteq> None" using IH I(4) by blast
  moreover have "htable_lookup htab' k' \<noteq> None" if "htable_lookup htab k' \<noteq> None" for k'
    using that IH I(6) [of k'] by auto
  ultimately show ?case using IH k by auto
qed

lemma hash_device_props:
  assumes run: "hash_device ctx dev = Some (rc, ctx')"
    and tab: "\<forall>d\<in>set (devices ctx). \<exists>k. dev_hash_key d = Some k \<and>
        htable_lookup (device_htable ctx) k \<noteq> None"
  shows "rc = 0"
    "\<forall>d\<in>set (devices ctx). \<exists>k. dev_hash_key d = Some k \<and>
        htable_lookup (device_htable ctx') k \<noteq> None"
    "\<exists>k. dev_hash_key dev = Some k \<and> htable_lookup (device_htable ctx') k \<noteq> None"
proof -
  from run obtain key where k: "dev_hash_key dev = Some key"
    by (cases "dev_hash_key dev") (simp_all add: hash_device_def)
  have "rc = 0 \<and> (\<forall>d\<in>set (devices ctx). \<exists>k. dev_hash_key d = Some k \<and>
        htable_lookup (device_htable ctx') k \<noteq> None) \<and>
      htable_lookup (device_htable ctx') key \<noteq> None"
  proof (cases "htable_full (device_htable ctx)")
    case False
    with run k obtain htab where i: "htable_insert (device_htable ctx) key dev = Some (rc, htab)"
      and c: "ctx' = ctx\<lparr>device_htable := htab\<rparr>"
      by (auto simp: hash_device_def split: option.splits)
    note I = htable_insert_SomeD [OF i]
    have "htable_lookup htab k' \<noteq> None" if "htable_lookup (device_htable ctx) k' \<noteq> None" for k'
      using that I(6) [of k'] by auto
    with tab I(1,4) show ?thesis by (auto simp: c)
  next
    case True
    with run k obtain rc1 htab1 where
      r: "rehash (htable_init (maxsize (device_htable ctx) * 2)) (devices ctx) = Some (rc1, htab1)"
      by (cases "rehash (htable_init (maxsize (device_htable ctx) * 2)) (devices ctx)")
         (auto simp: hash_device_def Let_def)
    note R = rehash_props [OF r]
    with run k True r obtain htab where i: "htable_insert htab1 key dev = Some (rc, htab)"
      and c: "ctx' = ctx\<lparr>device_htable := htab\<rparr>"
      by (auto simp: hash_device_def Let_def split: option.splits)
    note I = htable_insert_SomeD [OF i]
    have "htable_lookup htab k' \<noteq> None" if "htable_lookup htab1 k' \<noteq> None" for k'
      using that I(6) [of k'] by auto
    with R I(1,4) show ?thesis by (auto simp: c)
  qed
  with k show "rc = 0"
    "\<forall>d\<in>set (devices ctx). \<exists>k. dev_hash_key d = Some k \<and>
        htable_lookup (device_htable ctx') k \<noteq> None"
    "\<exists>k. dev_hash_key dev = Some k \<and> htable_lookup (device_htable ctx') k \<noteq> None"
    by simp_all
qed

lemma cache_build_hash_key:
  assumes "cache_build_hash cache1 = (0, cache2)"
  shows "dev_attrs cache2 = dev_attrs cache1" "dev_type cache2 = dev_type cache1"
    "dev_cpumask cache2 = dev_cpumask cache1"
    "dev_hash_key cache2 = triple_key (cache_triple cache2)"
    "dev_hash_key cache2 \<noteq> None"
  using assms
  by (auto simp: cache_build_hash_def cache_triple_def triple_key_def topo_device_get_attr_value_def
      split: option.splits)

lemma get_cache_info_loop_devices_ok:
  assumes "get_cache_info_loop fs ctx cpu n idx = Some (rc, ctx')" "devices_ok ctx"
  shows "devices_ok ctx'"
  using assms
proof (induction n arbitrary: ctx idx)
  case 0
  then show ?case by simp
next
  case (Suc n)
  from Suc.prems(1) show ?case
  proof (cases rule: get_cache_info_loop_cases)
    case info_err
    with Suc.prems(2) show ?thesis by simp
  next
    case (hash_err cache1)
    with Suc.prems(2) show ?thesis by simp
  next
    case (seen cache1 cache2 key)
    from seen(5) Suc.prems(2) show ?thesis by (rule Suc.IH)
  next
    case (table_err cache1 cache2 key rc3)
    from Suc.prems(2) have "\<forall>d\<in>set (devices ctx). \<exists>k. dev_hash_key d = Some k \<and>
        htable_lookup (device_htable ctx) k \<noteq> None"
      by (auto simp: devices_ok_def)
    from hash_device_props(1) [OF table_err(5) this] table_err(6) show ?thesis by simp
  next
    case (registered cache1 cache2 key ctx1)
    from Suc.prems(2) have tab: "\<forall>d\<in>set (devices ctx). \<exists>k. dev_hash_key d = Some k \<and>
        htable_lookup (device_htable ctx) k \<noteq> None"
      by (auto simp: devices_ok_def)
    note H = hash_device_props [OF registered(5) tab]
    note F = hash_device_frame [OF registered(5)]
    note K = cache_build_hash_key [OF registered(2)]
    have new: "Some key \<notin> dev_hash_key ` set (devices ctx)"
      using tab registered(4) by force
    have "devices_ok (topo_device_register ctx1 cache2)"
      unfolding devices_ok_def register_frame
    proof (intro conjI ballI)
      show "distinct (map dev_hash_key (cache2 # devices ctx1))"
        using Suc.prems(2) new by (simp add: F(2) registered(3) devices_ok_def)
    next
      fix d assume "d \<in> set (cache2 # devices ctx1)"
      then consider "d = cache2" | "d \<in> set (devices ctx)" by (auto simp: F(2))
      then show "\<exists>k. dev_hash_key d = Some k \<and> triple_key (cache_triple d) = Some k \<and>
          htable_lookup (device_htable ctx1) k \<noteq> None"
      proof cases
        case 1
        with H(3) K(4) show ?thesis by auto
      next
        case 2
        with H(2) Suc.prems(2) show ?thesis by (fastforce simp: devices_ok_def)
      qed
    qed
    with registered(6) show ?thesis by (rule Suc.IH)
  qed
qed

lemma get_cache_info_devices_ok:
  "get_cache_info fs ctx thread = Some (rc, ctx') \<Longrightarrow> devices_ok ctx \<Longrightarrow> devices_ok ctx'"
  by (auto simp: get_cache_info_def Let_def split: option.splits if_splits
      dest: get_cache_info_loop_devices_ok)

lemma devices_ok_cong:
  "devices_ok ctx \<Longrightarrow> devices ctx' = devices ctx \<Longrightarrow> device_htable ctx' = device_htable ctx \<Longrightarrow>
   devices_ok ctx'"
  by (simp add: devices_ok_def)

lemma heap_inv_init: "heap_inv (new_context_init root sz)"
  by (simp add: heap_inv_def ents_ok_def masks_ok_def bits_ok_def tables_ok_def
      new_context_init_def htable_init_def)

lemma build_inv_init: "build_inv (new_context_init root sz)"
  using heap_inv_init [of root sz]
  by (simp add: build_inv_def devices_ok_def new_context_init_def)

lemma alloc_build_inv:
  assumes "alloc_init_topo_procent ctx par ident = Some (ent, ctx')" "build_inv ctx"
  shows "build_inv ctx'"
  using assms alloc_heap_inv [OF assms(1)] alloc_frame(5,6) [OF assms(1)]
  by (auto simp: build_inv_def intro: devices_ok_cong)

lemma do_one_cpu_build_inv:
  assumes run: "do_one_cpu fs ctx node cpu = Some (rc, ctx')"
    and inv: "build_inv ctx" and node: "level (ents ctx ! node) = TOPOLOGY_NODE"
      "node < length (ents ctx)"
  shows "build_inv ctx'" "ents_extend ctx ctx'" "sysfs_root ctx' = sysfs_root ctx"
    "cpu_set_t_size ctx' = cpu_set_t_size ctx" "system ctx' = system ctx" "rc = 0"
proof -
  from inv have hinv: "heap_inv ctx" and dinv: "devices_ok ctx" by (simp_all add: build_inv_def)
  note H = do_one_cpu_heap_inv [OF run hinv node]
  from run obtain pkg ctx1 core ctx2 thread ctx3 ctx4 rc5 where
    p: "find_or_add_package ctx node cpu (sysfs_cpu_core_siblings fs (sysfs_root ctx) cpu)
       = Some (0, pkg, ctx1)"
    and c: "find_or_add_core ctx1 pkg cpu (sysfs_cpu_thread_siblings fs (sysfs_root ctx1) cpu)
       = Some (0, core, ctx2)"
    and t: "alloc_init_topo_procent ctx2 (Some core) cpu = Some (thread, ctx3)"
    and m: "topo_procent_cpumask_set ctx3 thread cpu = Some ctx4"
    and g: "get_cache_info fs ctx4 thread = Some (rc5, ctx')"
    by (rule do_one_cpu_cases)
  note P = find_or_add_package_inv [OF p hinv node(1)]
  note C = find_or_add_core_inv [OF c P(1) P(4)]
  have inv3: "heap_inv ctx3" using t C(1) by (rule alloc_heap_inv)
  have th: "thread < length (ents ctx3)" "level (ents ctx3 ! thread) = TOPOLOGY_THREAD"
    "ent_id (ents ctx3 ! thread) = cpu"
    using alloc_new [OF t] C(4) by (simp_all add: topology_level_defs)
  note M = cpumask_set_heap_inv [OF inv3 th m]
  have "devices ctx4 = devices ctx" "device_htable ctx4 = device_htable ctx"
    using P(7,8) C(7,8) alloc_frame(5,6) [OF t] by (simp_all add: M(3))
  with dinv have "devices_ok ctx4" by (rule devices_ok_cong)
  with g have "devices_ok ctx'" by (rule get_cache_info_devices_ok)
  with H(1) show "build_inv ctx'" by (simp add: build_inv_def)
  show "ents_extend ctx ctx'" "sysfs_root ctx' = sysfs_root ctx"
    "cpu_set_t_size ctx' = cpu_set_t_size ctx" "system ctx' = system ctx" "rc = 0"
    by (rule H)+
qed

subsection \<open>The whole build\<close>

lemma ents_extend_level:
  "ents_extend ctx ctx' \<Longrightarrow> n < length (ents ctx) \<Longrightarrow>
   n < length (ents ctx') \<and> level (ents ctx' ! n) = level (ents ctx ! n)"
  by (simp add: ents_extend_def)

lemma node_cpus_loop_build_inv:
  assumes "node_cpus_loop fs ctx node es = Some (rc, ctx')" "build_inv ctx"
    "level (ents ctx ! node) = TOPOLOGY_NODE" "node < length (ents ctx)"
  shows "build_inv ctx' \<and> ents_extend ctx ctx' \<and> sysfs_root ctx' = sysfs_root ctx \<and>
    cpu_set_t_size ctx' = cpu_set_t_size ctx \<and> system ctx' = system ctx"
  using assms
proof (induction es arbitrary: ctx)
  case Nil
  then show ?case by simp
next
  case (Cons e es)
  obtain d_name t where e: "e = (d_name, t)" by (cases e)
  show ?case
  proof (cases "sscanf_d ''cpu'' d_name")
    case None
    with Cons e show ?thesis by simp
  next
    case (Some cpu)
    show ?thesis
    proof (cases "sysfs_cpu_is_online fs (sysfs_root ctx) cpu = 0")
      case True
      with Cons e Some show ?thesis by simp
    next
      case False
      with Cons.prems(1) e Some obtain rc1 ctx1 where
        d: "do_one_cpu fs ctx node cpu = Some (rc1, ctx1)"
        by (cases "do_one_cpu fs ctx node cpu") auto
      note D = do_one_cpu_build_inv [OF d Cons.prems(2,3,4)]
      from Cons.prems(1) e Some False d D(6)
      have run: "node_cpus_loop fs ctx1 node es = Some (rc, ctx')" by simp
      from ents_extend_level [OF D(2) Cons.prems(4)] Cons.prems(3)
      have n1: "level (ents ctx1 ! node) = TOPOLOGY_NODE" "node < length (ents ctx1)" by simp_all
      from Cons.IH [OF run D(1) n1] D(2,3,4,5) show ?thesis
        by (auto intro: ents_extend_trans)
    qed
  qed
qed

lemma do_node_cpus_build_inv:
  assumes "do_node_cpus fs ctx node = Some (rc, ctx')" "build_inv ctx"
    "level (ents ctx ! node) = TOPOLOGY_NODE"
  shows "build_inv ctx' \<and> ents_extend ctx ctx' \<and> sysfs_root ctx' = sysfs_root ctx \<and>
    cpu_set_t_size ctx' = cpu_set_t_size ctx \<and> system ctx' = system ctx"
proof -
  from assms(1) have n: "node < length (ents ctx)"
    by (auto simp: do_node_cpus_def procent_def split: if_splits)
  from assms(1) n consider "ctx' = ctx"
    | dir where "node_cpus_loop fs ctx node dir = Some (rc, ctx')"
    by (auto simp: do_node_cpus_def procent_def split: option.splits if_splits)
  then show ?thesis
  proof cases
    case 1
    with assms(2) show ?thesis by simp
  next
    case 2
    then show ?thesis using assms(2,3) n by (rule node_cpus_loop_build_inv)
  qed
qed

lemma do_one_node_build_inv:
  assumes "do_one_node fs ctx sys nid = Some (rc, ctx')" "build_inv ctx"
    "level (ents ctx ! sys) = TOPOLOGY_SYSTEM"
  shows "build_inv ctx' \<and> ents_extend ctx ctx' \<and> sysfs_root ctx' = sysfs_root ctx \<and>
    cpu_set_t_size ctx' = cpu_set_t_size ctx \<and> system ctx' = system ctx"
proof -
  from assms(1) obtain node ctx1 where
    a: "alloc_init_topo_procent ctx (Some sys) nid = Some (node, ctx1)"
    and d: "do_node_cpus fs ctx1 node = Some (rc, ctx')"
    by (auto simp: do_one_node_def split: option.splits)
  have "level (ents ctx1 ! node) = TOPOLOGY_NODE"
    using alloc_new(6) [OF a] assms(3) by (simp add: topology_level_defs)
  from do_node_cpus_build_inv [OF d alloc_build_inv [OF a assms(2)] this]
    alloc_extend [OF a] alloc_frame [OF a]
  show ?thesis by (auto intro: ents_extend_trans)
qed

lemma nodes_loop_build_inv:
  assumes "nodes_loop fs ctx sys es = Some (rc, ctx')" "build_inv ctx"
    "level (ents ctx ! sys) = TOPOLOGY_SYSTEM" "sys < length (ents ctx)"
  shows "build_inv ctx' \<and> ents_extend ctx ctx' \<and> sysfs_root ctx' = sysfs_root ctx \<and>
    cpu_set_t_size ctx' = cpu_set_t_size ctx \<and> system ctx' = system ctx"
  using assms
proof (induction es arbitrary: ctx)
  case Nil
  then show ?case by simp
next
  case (Cons e es)
  obtain d_name t where e: "e = (d_name, t)" by (cases e)
  show ?case
  proof (cases "(t \<noteq> DT_DIR \<and> t \<noteq> DT_UNKNOWN) \<or> sscanf_d ''node'' d_name = None")
    case True
    with Cons.prems(1) e have "nodes_loop fs ctx sys es = Some (rc, ctx')"
      by (auto split: if_splits)
    then show ?thesis using Cons.prems(2,3,4) by (rule Cons.IH)
  next
    case False
    then obtain nid where nid: "sscanf_d ''node'' d_name = Some nid" by auto
    with False Cons.prems(1) e obtain rc1 ctx1 where
      d: "do_one_node fs ctx sys nid = Some (rc1, ctx1)"
      by (cases "do_one_node fs ctx sys nid") (auto split: if_splits)
    note D = do_one_node_build_inv [OF d Cons.prems(2,3)]
    show ?thesis
    proof (cases "rc1 = 0")
      case True
      with False Cons.prems(1) e nid d
      have run: "nodes_loop fs ctx1 sys es = Some (rc, ctx')" by (auto split: if_splits)
      from D ents_extend_level [of ctx ctx1 sys] Cons.prems(3,4)
      have s1: "level (ents ctx1 ! sys) = TOPOLOGY_SYSTEM" "sys < length (ents ctx1)" by simp_all
      from Cons.IH [OF run _ s1] D show ?thesis by (auto intro: ents_extend_trans)
    next
      case rc1: False
      with False Cons.prems(1) e nid d have "ctx' = ctx1" by (auto split: if_splits)
      with D show ?thesis by simp
    qed
  qed
qed

lemma build_context_build_inv:
  assumes "build_context fs ctx = Some (rc, ctx')" "build_inv ctx"
  shows "build_inv ctx'" "sysfs_root ctx' = sysfs_root ctx"
    "cpu_set_t_size ctx' = cpu_set_t_size ctx"
    "\<exists>sys. system ctx' = Some sys \<and> sys < length (ents ctx') \<and>
       level (ents ctx' ! sys) = TOPOLOGY_SYSTEM"
proof -
  from assms(1) obtain sys ctx0 where
    a: "alloc_init_topo_procent ctx None 0 = Some (sys, ctx0)"
    by (cases "alloc_init_topo_procent ctx None 0") (auto simp: build_context_def)
  let ?ctx1 = "ctx0\<lparr>system := Some sys\<rparr>"
  have inv1: "build_inv ?ctx1"
    using alloc_build_inv [OF a assms(2)]
    by (auto simp: build_inv_def intro: devices_ok_cong elim: heap_inv_cong)
  have s1: "level (ents ?ctx1 ! sys) = TOPOLOGY_SYSTEM" "sys < length (ents ?ctx1)"
    using alloc_new [OF a] by simp_all
  from assms(1) a consider "do_one_node fs ?ctx1 sys 0 = Some (rc, ctx')"
    | dir where "nodes_loop fs ?ctx1 sys dir = Some (rc, ctx')"
    by (auto simp: build_context_def Let_def split: option.splits)
  then have r: "build_inv ctx' \<and> ents_extend ?ctx1 ctx' \<and> sysfs_root ctx' = sysfs_root ?ctx1 \<and>
    cpu_set_t_size ctx' = cpu_set_t_size ?ctx1 \<and> system ctx' = system ?ctx1"
  proof cases
    case 1
    then show ?thesis using inv1 s1(1) by (rule do_one_node_build_inv)
  next
    case 2
    then show ?thesis using inv1 s1 by (rule nodes_loop_build_inv)
  qed
  then show "build_inv ctx'" by simp
  from r alloc_frame [OF a] show "sysfs_root ctx' = sysfs_root ctx"
    "cpu_set_t_size ctx' = cpu_set_t_size ctx" by simp_all
  from r ents_extend_level [of ?ctx1 ctx' sys] s1
  show "\<exists>sys. system ctx' = Some sys \<and> sys < length (ents ctx') \<and>
       level (ents ctx' ! sys) = TOPOLOGY_SYSTEM" by simp
qed

lemma new_context_SomeD:
  assumes "new_context fs root sz = Some (Some ctx)"
  shows "build_context fs (new_context_init root sz) = Some (0, ctx)"
  using assms by (auto simp: new_context_def split: option.splits if_splits)

lemma new_context_build_inv:
  assumes "new_context fs root sz = Some (Some ctx)"
  shows "build_inv ctx"
  using build_context_build_inv(1) [OF new_context_SomeD [OF assms] build_inv_init] .

lemma new_context_heap_inv:
  assumes "new_context fs root sz = Some (Some ctx)"
  shows "heap_inv ctx"
  using new_context_build_inv [OF assms] by (simp add: build_inv_def)

subsection \<open>Keys of the cache devices\<close>

lemma distinct_map_factor:
  assumes "distinct (map f xs)" "\<forall>x\<in>set xs. f x = g (h x)"
  shows "distinct (map h xs)"
proof -
  from assms(1) have d: "distinct xs" and i: "inj_on f (set xs)" by (simp_all add: distinct_map)
  have "inj_on h (set xs)"
  proof (rule inj_onI)
    fix x y assume "x \<in> set xs" "y \<in> set xs" "h x = h y"
    with assms(2) have "f x = f y" by simp
    with i \<open>x \<in> set xs\<close> \<open>y \<in> set xs\<close> show "x = y" by (simp add: inj_on_def)
  qed
  with d show ?thesis by (simp add: distinct_map)
qed

lemma triple_key_Some:
  "triple_key tr = Some k \<longleftrightarrow>
     (\<exists>lvl type cpus. tr = (Some lvl, Some type, Some cpus) \<and>
        k = ''cache-L'' @ lvl @ ''-'' @ type @ ''-'' @ cpus)"
  by (auto simp: triple_key_def split: prod.splits option.splits)

lemma get_cache_info_loop_seen:
  assumes "get_cache_info_index fs ctx (alloc_topo_device ctx ''cache'') cpu (int idx) = (0, cache1)"
    and "cache_build_hash cache1 = (0, cache2)" and "dev_hash_key cache2 = Some key"
    and "htable_lookup (device_htable ctx) key \<noteq> None"
  shows "get_cache_info_loop fs ctx cpu (Suc n) idx = get_cache_info_loop fs ctx cpu n (Suc idx)"
  using assms by (simp add: Let_def)

subsection \<open>What one CPU adds to the context\<close>

lemma masks_only_trans: "masks_only a b \<Longrightarrow> masks_only b c \<Longrightarrow> masks_only a c"
  by (simp add: masks_only_def)

lemma masks_only_step:
  "masks_only ctx (ctx\<lparr>ents := (ents ctx)[t := (ents ctx ! t)\<lparr>ent_cpumask := m\<rparr>]\<rparr>)"
  by (simp add: masks_only_def)

lemma cpumask_set_masks_only:
  assumes "topo_procent_cpumask_set ctx0 t0 b0 = Some ctx0'"
  shows "masks_only ctx0 ctx0'"
proof (rule topo_procent_cpumask_set.raw_induct [where P = "\<lambda>c t b c'. masks_only c c'", OF _ assms])
  fix rec ctx ent b ctx'
  assume ih: "\<And>c e b y. rec c e b = Some y \<Longrightarrow> masks_only c y"
    and eq: "(case procent ctx ent of None \<Rightarrow> None
      | Some e \<Rightarrow>
          let ctx' = ctx\<lparr>ents := (ents ctx)[ent := e\<lparr>ent_cpumask :=
                 CPU_SET_S (size_t_of_int b) (cpu_set_t_size ctx) (ent_cpumask e)\<rparr>]\<rparr>
          in case parent e of None \<Rightarrow> Some ctx' | Some p \<Rightarrow> rec ctx' p b) = Some ctx'"
  from eq obtain e where e: "procent ctx ent = Some e"
    by (cases "procent ctx ent") simp_all
  then have ee: "e = ents ctx ! ent" by (simp add: procent_Some)
  let ?c = "ctx\<lparr>ents := (ents ctx)[ent := (ents ctx ! ent)\<lparr>ent_cpumask :=
      CPU_SET_S (size_t_of_int b) (cpu_set_t_size ctx) (ent_cpumask (ents ctx ! ent))\<rparr>]\<rparr>"
  have step: "masks_only ctx ?c" by (rule masks_only_step)
  show "masks_only ctx ctx'"
  proof (cases "parent e")
    case None
    with eq e ee have "ctx' = ?c" by (simp add: Let_def)
    with step show ?thesis by simp
  next
    case (Some p)
    with eq e ee have r: "rec ?c p b = Some ctx'" by (simp add: Let_def)
    have "masks_only ?c ctx'" using r by (rule ih)
    with step show ?thesis by (rule masks_only_trans)
  qed
qed

lemma masks_only_extend: "masks_only ctx ctx' \<Longrightarrow> ents_extend ctx ctx'"
  by (simp add: masks_only_def ents_extend_def)

lemma find_or_add_package_result:
  assumes run: "find_or_add_package ctx node cpu sib = Some (rc, pkg, ctx')"
  shows "ents_extend ctx ctx'" "htable_lookup (package_htable ctx') sib = Some pkg"
    "core_htable ctx' = core_htable ctx" "sysfs_root ctx' = sysfs_root ctx"
    "htable_lookup (package_htable ctx) sib = Some p \<Longrightarrow> pkg = p \<and> ctx' = ctx"
    "htable_lookup (package_htable ctx) sib = None \<Longrightarrow>
       pkg = length (ents ctx) \<and> length (ents ctx') = Suc (length (ents ctx)) \<and>
       parent (ents ctx' ! pkg) = Some node \<and> hash_key (ents ctx' ! pkg) = Some sib \<and>
       ent_id (ents ctx' ! pkg) = cpu"
    "length (ents ctx') \<le> Suc (length (ents ctx))"
    "\<And>k v. htable_lookup (package_htable ctx) k = Some v \<Longrightarrow>
       htable_lookup (package_htable ctx') k = Some v"
proof -
  from run have "ents_extend ctx ctx' \<and> htable_lookup (package_htable ctx') sib = Some pkg \<and>
    core_htable ctx' = core_htable ctx \<and> sysfs_root ctx' = sysfs_root ctx \<and>
    (\<forall>p. htable_lookup (package_htable ctx) sib = Some p \<longrightarrow> pkg = p \<and> ctx' = ctx) \<and>
    (htable_lookup (package_htable ctx) sib = None \<longrightarrow>
       pkg = length (ents ctx) \<and> length (ents ctx') = Suc (length (ents ctx)) \<and>
       parent (ents ctx' ! pkg) = Some node \<and> hash_key (ents ctx' ! pkg) = Some sib \<and>
       ent_id (ents ctx' ! pkg) = cpu) \<and>
    length (ents ctx') \<le> Suc (length (ents ctx)) \<and>
    (\<forall>k v. htable_lookup (package_htable ctx) k = Some v \<longrightarrow>
       htable_lookup (package_htable ctx') k = Some v)"
  proof (cases rule: find_or_add_package_cases)
    case found
    then show ?thesis by simp
  next
    case (added ctx1 htab)
    note N = alloc_new [OF added(2)]
    note I = htable_insert_SomeD [OF added(3)]
    have ext: "ents_extend ctx ctx'"
      using ents_extend_trans [OF alloc_extend [OF added(2)] set_hash_key_extend [of ctx1 pkg sib]]
      by (simp add: added(4) ents_extend_def)
    have hk: "hash_key (ents ctx' ! pkg) = Some sib"
      using N(1,2) by (simp add: added(4) set_hash_key_def)
    have "htable_lookup htab sib = Some pkg"
      using I(5) added(1) by (simp add: alloc_frame [OF added(2)])
    moreover have "htable_lookup htab k = Some v" if "htable_lookup (package_htable ctx) k = Some v" for k v
      using I(6) [of k v] that by (simp add: alloc_frame [OF added(2)])
    ultimately show ?thesis
      using ext hk N added(1)
      by (simp add: added(4) set_hash_key_frame set_hash_key_nth alloc_frame [OF added(2)])
  qed
  then show "ents_extend ctx ctx'" "htable_lookup (package_htable ctx') sib = Some pkg"
    "core_htable ctx' = core_htable ctx" "sysfs_root ctx' = sysfs_root ctx"
    "htable_lookup (package_htable ctx) sib = Some p \<Longrightarrow> pkg = p \<and> ctx' = ctx"
    "htable_lookup (package_htable ctx) sib = None \<Longrightarrow>
       pkg = length (ents ctx) \<and> length (ents ctx') = Suc (length (ents ctx)) \<and>
       parent (ents ctx' ! pkg) = Some node \<and> hash_key (ents ctx' ! pkg) = Some sib \<and>
       ent_id (ents ctx' ! pkg) = cpu"
    "length (ents ctx') \<le> Suc (length (ents ctx))"
    "\<And>k v. htable_lookup (package_htable ctx) k = Some v \<Longrightarrow>
       htable_lookup (package_htable ctx') k = Some v"
    by blast+
qed

lemma find_or_add_core_result:
  assumes run: "find_or_add_core ctx node cpu sib = Some (rc, core, ctx')"
  shows "ents_extend ctx ctx'" "htable_lookup (core_htable ctx') sib = Some core"
    "package_htable ctx' = package_htable ctx" "sysfs_root ctx' = sysfs_root ctx"
    "htable_lookup (core_htable ctx) sib = Some p \<Longrightarrow> core = p \<and> ctx' = ctx"
    "htable_lookup (core_htable ctx) sib = None \<Longrightarrow>
       core = length (ents ctx) \<and> length (ents ctx') = Suc (length (ents ctx)) \<and>
       parent (ents ctx' ! core) = Some node \<and> hash_key (ents ctx' ! core) = Some sib \<and>
       ent_id (ents ctx' ! core) = cpu"
    "length (ents ctx') \<le> Suc (length (ents ctx))"
    "\<And>k v. htable_lookup (core_htable ctx) k = Some v \<Longrightarrow>
       htable_lookup (core_htable ctx') k = Some v"
proof -
  from run have "ents_extend ctx ctx' \<and> htable_lookup (core_htable ctx') sib = Some core \<and>
    package_htable ctx' = package_htable ctx \<and> sysfs_root ctx' = sysfs_root ctx \<and>
    (\<forall>p. htable_lookup (core_htable ctx) sib = Some p \<longrightarrow> core = p \<and> ctx' = ctx) \<and>
    (htable_lookup (core_htable ctx) sib = None \<longrightarrow>
       core = length (ents ctx) \<and> length (ents ctx') = Suc (length (ents ctx)) \<and>
       parent (ents ctx' ! core) = Some node \<and> hash_key (ents ctx' ! core) = Some sib \<and>
       ent_id (ents ctx' ! core) = cpu) \<and>
    length (ents ctx') \<le> Suc (length (ents ctx)) \<and>
    (\<forall>k v. htable_lookup (core_htable ctx) k = Some v \<longrightarrow>
       htable_lookup (core_htable ctx') k = Some v)"
  proof (cases rule: find_or_add_core_cases)
    case found
    then show ?thesis by simp
  next
    case (added ctx1 htab)
    note N = alloc_new [OF added(2)]
    note I = htable_insert_SomeD [OF added(3)]
    have ext: "ents_extend ctx ctx'"
      using ents_extend_trans [OF alloc_extend [OF added(2)] set_hash_key_extend [of ctx1 core sib]]
      by (simp add: added(4) ents_extend_def)
    have hk: "hash_key (ents ctx' ! core) = Some sib"
      using N(1,2) by (simp add: added(4) set_hash_key_def)
    have "htable_lookup htab sib = Some core"
      using I(5) added(1) by (simp add: alloc_frame [OF added(2)])
    moreover have "htable_lookup htab k = Some v" if "htable_lookup (core_htable ctx) k = Some v" for k v
      using I(6) [of k v] that by (simp add: alloc_frame [OF added(2)])
    ultimately show ?thesis
      using ext hk N added(1)
      by (simp add: added(4) set_hash_key_frame set_hash_key_nth alloc_frame [OF added(2)])
  qed
  then show "ents_extend ctx ctx'" "htable_lookup (core_htable ctx') sib = Some core"
    "package_htable ctx' = package_htable ctx" "sysfs_root ctx' = sysfs_root ctx"
    "htable_lookup (core_htable ctx) sib = Some p \<Longrightarrow> core = p \<and> ctx' = ctx"
    "htable_lookup (core_htable ctx) sib = None \<Longrightarrow>
       core = length (ents ctx) \<and> length (ents ctx') = Suc (length (ents ctx)) \<and>
       parent (ents ctx' ! core) = Some node \<and> hash_key (ents ctx' ! core) = Some sib \<and>
       ent_id (ents ctx' ! core) = cpu"
    "length (ents ctx') \<le> Suc (length (ents ctx))"
    "\<And>k v. htable_lookup (core_htable ctx) k = Some v \<Longrightarrow>
       htable_lookup (core_htable ctx') k = Some v"
    by blast+
qed

lemma do_one_cpu_result:
  assumes run: "do_one_cpu fs ctx node cpu = Some (rc, ctx')"
  obtains pkg core thread where
    "htable_lookup (package_htable ctx') (sysfs_cpu_core_siblings fs (sysfs_root ctx) cpu) = Some pkg"
    "htable_lookup (core_htable ctx') (sysfs_cpu_thread_siblings fs (sysfs_root ctx) cpu) = Some core"
    "\<And>p. htable_lookup (package_htable ctx) (sysfs_cpu_core_siblings fs (sysfs_root ctx) cpu) = Some p
       \<Longrightarrow> pkg = p"
    "htable_lookup (package_htable ctx) (sysfs_cpu_core_siblings fs (sysfs_root ctx) cpu) = None
       \<Longrightarrow> pkg = length (ents ctx) \<and> parent (ents ctx' ! pkg) = Some node \<and>
           hash_key (ents ctx' ! pkg) = Some (sysfs_cpu_core_siblings fs (sysfs_root ctx) cpu)"
    "\<And>c. htable_lookup (core_htable ctx) (sysfs_cpu_thread_siblings fs (sysfs_root ctx) cpu) = Some c
       \<Longrightarrow> core = c"
    "htable_lookup (core_htable ctx) (sysfs_cpu_thread_siblings fs (sysfs_root ctx) cpu) = None
       \<Longrightarrow> length (ents ctx) \<le> core \<and> core < thread \<and> parent (ents ctx' ! core) = Some pkg \<and>
           hash_key (ents ctx' ! core) = Some (sysfs_cpu_thread_siblings fs (sysfs_root ctx) cpu) \<and>
           ent_id (ents ctx' ! core) = cpu"
    "Suc thread = length (ents ctx')" "length (ents ctx) \<le> thread"
    "parent (ents ctx' ! thread) = Some core" "ent_id (ents ctx' ! thread) = cpu"
    "ents_extend ctx ctx'" "sysfs_root ctx' = sysfs_root ctx"
    "\<And>i. length (ents ctx) \<le> i \<Longrightarrow> i < length (ents ctx') \<Longrightarrow> i = pkg \<or> i = core \<or> i = thread"
    "\<And>k v. htable_lookup (core_htable ctx) k = Some v \<Longrightarrow> htable_lookup (core_htable ctx') k = Some v"
    "\<And>k v. htable_lookup (package_htable ctx) k = Some v \<Longrightarrow> htable_lookup (package_htable ctx') k = Some v"
proof -
  let ?sp = "sysfs_cpu_core_siblings fs (sysfs_root ctx) cpu"
  let ?sc = "sysfs_cpu_thread_siblings fs (sysfs_root ctx) cpu"
  from run obtain pkg ctx1 core ctx2 thread ctx3 ctx4 rc5 where
    p: "find_or_add_package ctx node cpu ?sp = Some (0, pkg, ctx1)"
    and c0: "find_or_add_core ctx1 pkg cpu (sysfs_cpu_thread_siblings fs (sysfs_root ctx1) cpu)
       = Some (0, core, ctx2)"
    and t: "alloc_init_topo_procent ctx2 (Some core) cpu = Some (thread, ctx3)"
    and m: "topo_procent_cpumask_set ctx3 thread cpu = Some ctx4"
    and g: "get_cache_info fs ctx4 thread = Some (rc5, ctx')"
    by (rule do_one_cpu_cases)
  note P = find_or_add_package_result [OF p]
  from c0 P(4) have c: "find_or_add_core ctx1 pkg cpu ?sc = Some (0, core, ctx2)" by simp
  note C = find_or_add_core_result [OF c]
  note T = alloc_new [OF t] and TF = alloc_frame [OF t] and TE = alloc_extend [OF t]
  note M = cpumask_set_masks_only [OF m]
  note G = get_cache_info_frame [OF g]
  have e34: "ents_extend ctx3 ctx'"
    using masks_only_extend [OF M] heap_same_extend [OF G] by (rule ents_extend_trans)
  have e2: "ents_extend ctx2 ctx'" using TE e34 by (rule ents_extend_trans)
  have e1: "ents_extend ctx1 ctx'" using C(1) e2 by (rule ents_extend_trans)
  have e0: "ents_extend ctx ctx'" using P(1) e1 by (rule ents_extend_trans)
  have len: "length (ents ctx') = length (ents ctx3)"
    using M G by (simp add: masks_only_def heap_same_def)
  have hk: "hash_key (ents ctx' ! i) = hash_key (ents ctx3 ! i)" for i
    using M G by (simp add: masks_only_def heap_same_def)
  have tabs: "package_htable ctx' = package_htable ctx1" "core_htable ctx' = core_htable ctx2"
    using M G TF C(3) by (simp_all add: masks_only_def heap_same_def)
  have l01: "length (ents ctx) \<le> length (ents ctx1)" and l12: "length (ents ctx1) \<le> length (ents ctx2)"
    using P(1) C(1) by (simp_all add: ents_extend_def)
  show ?thesis
  proof (rule that [of pkg core thread])
    show "htable_lookup (package_htable ctx') ?sp = Some pkg" using P(2) by (simp add: tabs)
    show "htable_lookup (core_htable ctx') ?sc = Some core" using C(2) by (simp add: tabs)
    show "pkg = p'" if "htable_lookup (package_htable ctx) ?sp = Some p'" for p'
      using P(5) [OF that] by simp
    show "pkg = length (ents ctx) \<and> parent (ents ctx' ! pkg) = Some node \<and>
        hash_key (ents ctx' ! pkg) = Some ?sp"
      if "htable_lookup (package_htable ctx) ?sp = None"
    proof -
      note N0 = P(6) [OF that]
      from N0 have N: "pkg = length (ents ctx)" "length (ents ctx1) = Suc (length (ents ctx))"
        "parent (ents ctx1 ! pkg) = Some node" "hash_key (ents ctx1 ! pkg) = Some ?sp"
        by blast+
      then have "pkg < length (ents ctx1)" by simp
      with l12 have p2: "pkg < length (ents ctx2)" by simp
      have "parent (ents ctx' ! pkg) = parent (ents ctx1 ! pkg)"
        using e1 \<open>pkg < length (ents ctx1)\<close> unfolding ents_extend_def by blast
      with N have "parent (ents ctx' ! pkg) = Some node" by simp
      moreover have "hash_key (ents ctx2 ! pkg) = Some ?sp"
      proof (cases "htable_lookup (core_htable ctx1) ?sc")
        case None
        from C(6) [OF None] N have "core \<noteq> pkg" by simp
        from c show ?thesis
        proof (cases rule: find_or_add_core_cases)
          case found
          with N show ?thesis by simp
        next
          case (added c1 htab)
          with N \<open>core \<noteq> pkg\<close> \<open>pkg < length (ents ctx1)\<close> show ?thesis
            by (simp add: set_hash_key_def alloc_nth_old [OF added(2)] nth_list_update)
        qed
      next
        case (Some c')
        from C(5) [OF Some] N show ?thesis by simp
      qed
      ultimately show ?thesis using N p2 by (simp add: hk alloc_nth_old [OF t])
    qed
    show "core = c'" if "htable_lookup (core_htable ctx) ?sc = Some c'" for c'
      using C(5) [of c'] that by (simp add: P(3))
    show "length (ents ctx) \<le> core \<and> core < thread \<and> parent (ents ctx' ! core) = Some pkg \<and>
        hash_key (ents ctx' ! core) = Some ?sc \<and> ent_id (ents ctx' ! core) = cpu"
      if "htable_lookup (core_htable ctx) ?sc = None"
    proof -
      from that have "htable_lookup (core_htable ctx1) ?sc = None" by (simp add: P(3))
      note N0 = C(6) [OF this]
      from N0 have N: "core = length (ents ctx1)" "length (ents ctx2) = Suc (length (ents ctx1))"
        "parent (ents ctx2 ! core) = Some pkg" "hash_key (ents ctx2 ! core) = Some ?sc"
        "ent_id (ents ctx2 ! core) = cpu"
        by blast+
      then have c2: "core < length (ents ctx2)" by simp
      have "parent (ents ctx' ! core) = parent (ents ctx2 ! core)"
        "ent_id (ents ctx' ! core) = ent_id (ents ctx2 ! core)"
        using e2 c2 unfolding ents_extend_def by blast+
      with N have "parent (ents ctx' ! core) = Some pkg" "ent_id (ents ctx' ! core) = cpu"
        by simp_all
      with N c2 l01 T(1) show ?thesis by (simp add: hk alloc_nth_old [OF t])
    qed
    show "Suc thread = length (ents ctx')" using T(1,2) by (simp add: len)
    show "length (ents ctx) \<le> thread" using T(1) l01 l12 by simp
    have "thread < length (ents ctx3)" using T(1,2) by simp
    then have "parent (ents ctx' ! thread) = parent (ents ctx3 ! thread)"
      "ent_id (ents ctx' ! thread) = ent_id (ents ctx3 ! thread)"
      using e34 unfolding ents_extend_def by blast+
    with T(3,4) show "parent (ents ctx' ! thread) = Some core" "ent_id (ents ctx' ! thread) = cpu"
      by simp_all
    show "ents_extend ctx ctx'" by (rule e0)
    show "sysfs_root ctx' = sysfs_root ctx"
      using M G TF(1) C(4) P(4) by (simp add: masks_only_def heap_same_def)
    show "i = pkg \<or> i = core \<or> i = thread"
      if "length (ents ctx) \<le> i" "i < length (ents ctx')" for i
    proof (cases "htable_lookup (package_htable ctx) ?sp")
      case None
      note NP = P(6) [OF None]
      show ?thesis
      proof (cases "htable_lookup (core_htable ctx1) ?sc")
        case None
        from C(6) [OF None] NP T(1,2) that show ?thesis by (auto simp: len)
      next
        case (Some c')
        from C(5) [OF Some] NP T(1,2) that show ?thesis by (auto simp: len)
      qed
    next
      case (Some p')
      note SP = P(5) [OF Some]
      show ?thesis
      proof (cases "htable_lookup (core_htable ctx1) ?sc")
        case None
        from C(6) [OF None] SP T(1,2) that show ?thesis by (auto simp: len)
      next
        case (Some c')
        from C(5) [OF Some] SP T(1,2) that show ?thesis by (auto simp: len)
      qed
    qed
    show "htable_lookup (core_htable ctx') k = Some v" if "htable_lookup (core_htable ctx) k = Some v" for k v
      using C(8) [of k v] that by (simp add: tabs P(3))
    show "htable_lookup (package_htable ctx') k = Some v" if "htable_lookup (package_htable ctx) k = Some v" for k v
      using P(8) [of k v] that by (simp add: tabs)
  qed
qed

subsection \<open>Threads, the core table and the package table\<close>

lemma tables_okD:
  assumes "tables_ok ctx"
  shows "htable_lookup (package_htable ctx) k = Some p \<Longrightarrow>
           p < length (ents ctx) \<and> level (ents ctx ! p) = TOPOLOGY_PACKAGE"
    and "htable_lookup (core_htable ctx) k = Some c \<Longrightarrow>
           c < length (ents ctx) \<and> level (ents ctx ! c) = TOPOLOGY_CORE"
  using assms by (auto simp: tables_ok_def dest!: htable_lookup_in_tbl)

lemma do_one_cpu_threads_ok:
  assumes run: "do_one_cpu fs ctx node cpu = Some (rc, ctx')"
    and inv: "build_inv ctx" and node: "level (ents ctx ! node) = TOPOLOGY_NODE"
      "node < length (ents ctx)"
    and thr: "threads_ok fs ctx"
  shows "threads_ok fs ctx'"
proof -
  let ?sp = "sysfs_cpu_core_siblings fs (sysfs_root ctx) cpu"
  let ?sc = "sysfs_cpu_thread_siblings fs (sysfs_root ctx) cpu"
  note B = do_one_cpu_build_inv [OF run inv node]
  from B(1) have tab': "tables_ok ctx'" by (simp add: build_inv_def heap_inv_def)
  from run obtain pkg core thread where R:
    "htable_lookup (package_htable ctx') ?sp = Some pkg"
    "htable_lookup (core_htable ctx') ?sc = Some core"
    "Suc thread = length (ents ctx')"
    "parent (ents ctx' ! thread) = Some core" "ent_id (ents ctx' ! thread) = cpu"
    "\<And>i. length (ents ctx) \<le> i \<Longrightarrow> i < length (ents ctx') \<Longrightarrow> i = pkg \<or> i = core \<or> i = thread"
    "\<And>k v. htable_lookup (core_htable ctx) k = Some v \<Longrightarrow> htable_lookup (core_htable ctx') k = Some v"
    "\<And>k v. htable_lookup (package_htable ctx) k = Some v \<Longrightarrow> htable_lookup (package_htable ctx') k = Some v"
    by (rule do_one_cpu_result) blast
  have lp: "level (ents ctx' ! pkg) \<noteq> TOPOLOGY_THREAD"
    using tables_okD(1) [OF tab' R(1)] by (simp add: topology_level_defs)
  have lc: "level (ents ctx' ! core) \<noteq> TOPOLOGY_THREAD"
    using tables_okD(2) [OF tab' R(2)] by (simp add: topology_level_defs)
  show ?thesis
    unfolding threads_ok_def
  proof (intro allI impI)
    fix t assume t: "t < length (ents ctx')" and lt: "level (ents ctx' ! t) = TOPOLOGY_THREAD"
    let ?goal = "parent (ents ctx' ! t) \<noteq> None \<and>
        parent (ents ctx' ! t) =
          htable_lookup (core_htable ctx')
            (sysfs_cpu_thread_siblings fs (sysfs_root ctx') (ent_id (ents ctx' ! t))) \<and>
        htable_lookup (package_htable ctx')
          (sysfs_cpu_core_siblings fs (sysfs_root ctx') (ent_id (ents ctx' ! t))) \<noteq> None"
    show ?goal
    proof (cases "t < length (ents ctx)")
      case True
      with B(2) have same: "level (ents ctx' ! t) = level (ents ctx ! t)"
        "parent (ents ctx' ! t) = parent (ents ctx ! t)"
        "ent_id (ents ctx' ! t) = ent_id (ents ctx ! t)"
        unfolding ents_extend_def by blast+
      from thr True lt same(1) obtain c where
        c: "parent (ents ctx ! t) = Some c"
          "htable_lookup (core_htable ctx)
            (sysfs_cpu_thread_siblings fs (sysfs_root ctx) (ent_id (ents ctx ! t))) = Some c"
        and "htable_lookup (package_htable ctx)
          (sysfs_cpu_core_siblings fs (sysfs_root ctx) (ent_id (ents ctx ! t))) \<noteq> None"
        unfolding threads_ok_def by (metis not_Some_eq)
      then obtain p where p: "htable_lookup (package_htable ctx)
          (sysfs_cpu_core_siblings fs (sysfs_root ctx) (ent_id (ents ctx ! t))) = Some p"
        by blast
      from R(7) [OF c(2)] R(8) [OF p] c(1) show ?thesis by (simp add: same B(3))
    next
      case False
      with t R(6) [of t] lt lp lc have "t = thread" by auto
      with R(1,2,4,5) show ?thesis by (simp add: B(3))
    qed
  qed
qed

lemma do_one_cpu_cores_ok:
  assumes run: "do_one_cpu fs ctx node cpu = Some (rc, ctx')"
    and inv: "build_inv ctx" and node: "level (ents ctx ! node) = TOPOLOGY_NODE"
      "node < length (ents ctx)"
    and cor: "cores_ok fs ctx"
  shows "cores_ok fs ctx'"
proof -
  let ?sp = "sysfs_cpu_core_siblings fs (sysfs_root ctx) cpu"
  let ?sc = "sysfs_cpu_thread_siblings fs (sysfs_root ctx) cpu"
  note B = do_one_cpu_build_inv [OF run inv node]
  from B(1) have tab': "tables_ok ctx'" and ok': "ents_ok ctx'"
    by (simp_all add: build_inv_def heap_inv_def)
  from inv have tab: "tables_ok ctx" by (simp add: build_inv_def heap_inv_def)
  from run show ?thesis
  proof (rule do_one_cpu_result)
  fix pkg core thread
  assume R:
    "htable_lookup (package_htable ctx') ?sp = Some pkg"
    "htable_lookup (core_htable ctx') ?sc = Some core"
    "Suc thread = length (ents ctx')"
    "parent (ents ctx' ! thread) = Some core"
    "\<And>c. htable_lookup (core_htable ctx) ?sc = Some c \<Longrightarrow> core = c"
    "htable_lookup (core_htable ctx) ?sc = None
       \<Longrightarrow> length (ents ctx) \<le> core \<and> core < thread \<and> parent (ents ctx' ! core) = Some pkg \<and>
           hash_key (ents ctx' ! core) = Some ?sc \<and> ent_id (ents ctx' ! core) = cpu"
    "\<And>i. length (ents ctx) \<le> i \<Longrightarrow> i < length (ents ctx') \<Longrightarrow> i = pkg \<or> i = core \<or> i = thread"
    "\<And>k v. htable_lookup (core_htable ctx) k = Some v \<Longrightarrow> htable_lookup (core_htable ctx') k = Some v"
    "\<And>k v. htable_lookup (package_htable ctx) k = Some v \<Longrightarrow> htable_lookup (package_htable ctx') k = Some v"
  have lp: "level (ents ctx' ! pkg) \<noteq> TOPOLOGY_CORE"
    using tables_okD(1) [OF tab' R(1)] by (simp add: topology_level_defs)
  have "thread < length (ents ctx')" using R(3) by simp
  from ents_okD(2) [OF ok' this R(4)] tables_okD(2) [OF tab' R(2)]
  have lt: "level (ents ctx' ! thread) \<noteq> TOPOLOGY_CORE"
    by (simp add: topology_level_defs)
  show ?thesis
    unfolding cores_ok_def
  proof (intro allI impI)
    fix c assume c: "c < length (ents ctx')" and lc: "level (ents ctx' ! c) = TOPOLOGY_CORE"
    show "parent (ents ctx' ! c) \<noteq> None \<and>
        parent (ents ctx' ! c) =
          htable_lookup (package_htable ctx')
            (sysfs_cpu_core_siblings fs (sysfs_root ctx') (ent_id (ents ctx' ! c))) \<and>
        htable_lookup (core_htable ctx')
          (sysfs_cpu_thread_siblings fs (sysfs_root ctx') (ent_id (ents ctx' ! c))) = Some c"
    proof (cases "c < length (ents ctx)")
      case True
      with B(2) have same: "level (ents ctx' ! c) = level (ents ctx ! c)"
        "parent (ents ctx' ! c) = parent (ents ctx ! c)"
        "ent_id (ents ctx' ! c) = ent_id (ents ctx ! c)"
        unfolding ents_extend_def by blast+
      from lc same(1) have "level (ents ctx ! c) = TOPOLOGY_CORE" by simp
      with cor True have X: "parent (ents ctx ! c) \<noteq> None"
        "parent (ents ctx ! c) = htable_lookup (package_htable ctx)
            (sysfs_cpu_core_siblings fs (sysfs_root ctx) (ent_id (ents ctx ! c)))"
        and k: "htable_lookup (core_htable ctx)
          (sysfs_cpu_thread_siblings fs (sysfs_root ctx) (ent_id (ents ctx ! c))) = Some c"
        unfolding cores_ok_def by blast+
      from X(1) obtain p where p1: "parent (ents ctx ! c) = Some p" by blast
      with X(2) have p: "parent (ents ctx ! c) = Some p"
          "htable_lookup (package_htable ctx)
            (sysfs_cpu_core_siblings fs (sysfs_root ctx) (ent_id (ents ctx ! c))) = Some p"
        by simp_all
      from R(9) [OF p(2)] R(8) [OF k] p(1) show ?thesis by (simp add: same B(3))
    next
      case False
      with c R(7) [of c] lc lp lt have cc: "c = core" by auto
      have none: "htable_lookup (core_htable ctx) ?sc = None"
      proof (cases "htable_lookup (core_htable ctx) ?sc")
        case (Some k)
        from R(5) [OF Some] tables_okD(2) [OF tab Some] False cc show ?thesis by simp
      qed simp
      from R(6) [OF none] have "parent (ents ctx' ! core) = Some pkg" "ent_id (ents ctx' ! core) = cpu"
        by blast+
      with R(1,2) show ?thesis unfolding cc by (simp add: B(3))
    qed
  qed
  qed
qed

lemma do_one_cpu_signatures_ok:
  assumes "do_one_cpu fs ctx node cpu = Some (rc, ctx')"
    and "build_inv ctx" and "level (ents ctx ! node) = TOPOLOGY_NODE"
      "node < length (ents ctx)"
    and "signatures_ok fs ctx"
  shows "signatures_ok fs ctx'"
  using assms do_one_cpu_threads_ok [OF assms(1-4)] do_one_cpu_cores_ok [OF assms(1-4)]
  by (simp add: signatures_ok_def)

lemma alloc_signatures_ok:
  assumes a: "alloc_init_topo_procent ctx par ident = Some (e, ctx1)"
    and s: "signatures_ok fs ctx"
    and l: "level (ents ctx1 ! e) \<noteq> TOPOLOGY_THREAD" "level (ents ctx1 ! e) \<noteq> TOPOLOGY_CORE"
  shows "signatures_ok fs ctx1"
proof -
  have old: "t < length (ents ctx)" if "t < length (ents ctx1)" "level (ents ctx1 ! t) \<noteq> level (ents ctx1 ! e)" for t
    using alloc_new(1,2) [OF a] that by (cases "t = e") auto
  have "threads_ok fs ctx1"
    unfolding threads_ok_def
  proof (intro allI impI)
    fix t assume t: "t < length (ents ctx1)" and lt: "level (ents ctx1 ! t) = TOPOLOGY_THREAD"
    from old [OF t] lt l(1) have "t < length (ents ctx)" by simp
    with s lt alloc_nth_old [OF a, of t] alloc_frame [OF a]
    show "parent (ents ctx1 ! t) \<noteq> None \<and>
        parent (ents ctx1 ! t) =
          htable_lookup (core_htable ctx1)
            (sysfs_cpu_thread_siblings fs (sysfs_root ctx1) (ent_id (ents ctx1 ! t))) \<and>
        htable_lookup (package_htable ctx1)
          (sysfs_cpu_core_siblings fs (sysfs_root ctx1) (ent_id (ents ctx1 ! t))) \<noteq> None"
      unfolding signatures_ok_def threads_ok_def by force
  qed
  moreover have "cores_ok fs ctx1"
    unfolding cores_ok_def
  proof (intro allI impI)
    fix c assume c: "c < length (ents ctx1)" and lc: "level (ents ctx1 ! c) = TOPOLOGY_CORE"
    from old [OF c] lc l(2) have "c < length (ents ctx)" by simp
    with s lc alloc_nth_old [OF a, of c] alloc_frame [OF a]
    show "parent (ents ctx1 ! c) \<noteq> None \<and>
        parent (ents ctx1 ! c) =
          htable_lookup (package_htable ctx1)
            (sysfs_cpu_core_siblings fs (sysfs_root ctx1) (ent_id (ents ctx1 ! c))) \<and>
        htable_lookup (core_htable ctx1)
          (sysfs_cpu_thread_siblings fs (sysfs_root ctx1) (ent_id (ents ctx1 ! c))) = Some c"
      unfolding signatures_ok_def cores_ok_def by force
  qed
  ultimately show ?thesis by (simp add: signatures_ok_def)
qed

lemma node_cpus_loop_signatures_ok:
  assumes "node_cpus_loop fs ctx node es = Some (rc, ctx')" "build_inv ctx"
    "level (ents ctx ! node) = TOPOLOGY_NODE" "node < length (ents ctx)" "signatures_ok fs ctx"
  shows "signatures_ok fs ctx'"
  using assms
proof (induction es arbitrary: ctx)
  case Nil
  then show ?case by simp
next
  case (Cons e es)
  obtain d_name t where e: "e = (d_name, t)" by (cases e)
  show ?case
  proof (cases "sscanf_d ''cpu'' d_name")
    case None
    with Cons e show ?thesis by simp
  next
    case (Some cpu)
    show ?thesis
    proof (cases "sysfs_cpu_is_online fs (sysfs_root ctx) cpu = 0")
      case True
      with Cons e Some show ?thesis by simp
    next
      case False
      with Cons.prems(1) e Some obtain rc1 ctx1 where
        d: "do_one_cpu fs ctx node cpu = Some (rc1, ctx1)"
        by (cases "do_one_cpu fs ctx node cpu") auto
      note D = do_one_cpu_build_inv [OF d Cons.prems(2,3,4)]
      note T = do_one_cpu_signatures_ok [OF d Cons.prems(2,3,4,5)]
      from Cons.prems(1) e Some False d D(6)
      have run: "node_cpus_loop fs ctx1 node es = Some (rc, ctx')" by simp
      from ents_extend_level [OF D(2) Cons.prems(4)] Cons.prems(3)
      have n1: "level (ents ctx1 ! node) = TOPOLOGY_NODE" "node < length (ents ctx1)" by simp_all
      from Cons.IH [OF run D(1) n1 T] show ?thesis .
    qed
  qed
qed

lemma do_node_cpus_signatures_ok:
  assumes "do_node_cpus fs ctx node = Some (rc, ctx')" "build_inv ctx"
    "level (ents ctx ! node) = TOPOLOGY_NODE" "signatures_ok fs ctx"
  shows "signatures_ok fs ctx'"
proof -
  from assms(1) have n: "node < length (ents ctx)"
    by (auto simp: do_node_cpus_def procent_def split: if_splits)
  from assms(1) n consider "ctx' = ctx"
    | dir where "node_cpus_loop fs ctx node dir = Some (rc, ctx')"
    by (auto simp: do_node_cpus_def procent_def split: option.splits if_splits)
  then show ?thesis
  proof cases
    case 1
    with assms(4) show ?thesis by simp
  next
    case 2
    then show ?thesis using assms(2,3) n assms(4) by (rule node_cpus_loop_signatures_ok)
  qed
qed

lemma do_one_node_signatures_ok:
  assumes "do_one_node fs ctx sys nid = Some (rc, ctx')" "build_inv ctx"
    "level (ents ctx ! sys) = TOPOLOGY_SYSTEM" "signatures_ok fs ctx"
  shows "signatures_ok fs ctx'"
proof -
  from assms(1) obtain node ctx1 where
    a: "alloc_init_topo_procent ctx (Some sys) nid = Some (node, ctx1)"
    and d: "do_node_cpus fs ctx1 node = Some (rc, ctx')"
    by (auto simp: do_one_node_def split: option.splits)
  have l: "level (ents ctx1 ! node) = TOPOLOGY_NODE"
    using alloc_new(6) [OF a] assms(3) by (simp add: topology_level_defs)
  have "signatures_ok fs ctx1"
    using a assms(4) by (rule alloc_signatures_ok) (simp_all add: l topology_level_defs)
  from do_node_cpus_signatures_ok [OF d alloc_build_inv [OF a assms(2)] l this]
  show ?thesis .
qed

lemma nodes_loop_signatures_ok:
  assumes "nodes_loop fs ctx sys es = Some (rc, ctx')" "build_inv ctx"
    "level (ents ctx ! sys) = TOPOLOGY_SYSTEM" "sys < length (ents ctx)" "signatures_ok fs ctx"
  shows "signatures_ok fs ctx'"
  using assms
proof (induction es arbitrary: ctx)
  case Nil
  then show ?case by simp
next
  case (Cons e es)
  obtain d_name t where e: "e = (d_name, t)" by (cases e)
  show ?case
  proof (cases "(t \<noteq> DT_DIR \<and> t \<noteq> DT_UNKNOWN) \<or> sscanf_d ''node'' d_name = None")
    case True
    with Cons.prems(1) e have "nodes_loop fs ctx sys es = Some (rc, ctx')"
      by (auto split: if_splits)
    then show ?thesis using Cons.prems(2,3,4,5) by (rule Cons.IH)
  next
    case False
    then obtain nid where nid: "sscanf_d ''node'' d_name = Some nid" by auto
    with False Cons.prems(1) e obtain rc1 ctx1 where
      d: "do_one_node fs ctx sys nid = Some (rc1, ctx1)"
      by (cases "do_one_node fs ctx sys nid") (auto split: if_splits)
    note D = do_one_node_build_inv [OF d Cons.prems(2,3)]
    note T = do_one_node_signatures_ok [OF d Cons.prems(2,3,5)]
    show ?thesis
    proof (cases "rc1 = 0")
      case True
      with False Cons.prems(1) e nid d
      have run: "nodes_loop fs ctx1 sys es = Some (rc, ctx')" by (auto split: if_splits)
      from D ents_extend_level [of ctx ctx1 sys] Cons.prems(3,4)
      have s1: "level (ents ctx1 ! sys) = TOPOLOGY_SYSTEM" "sys < length (ents ctx1)" by simp_all
      from D have "build_inv ctx1" by simp
      from Cons.IH [OF run this s1 T] show ?thesis .
    next
      case rc1: False
      with False Cons.prems(1) e nid d have "ctx' = ctx1" by (auto split: if_splits)
      with T show ?thesis by simp
    qed
  qed
qed

lemma build_context_signatures_ok:
  assumes "build_context fs ctx = Some (rc, ctx')" "build_inv ctx" "ents ctx = []"
  shows "signatures_ok fs ctx'"
proof -
  from assms(1) obtain sys ctx0 where
    a: "alloc_init_topo_procent ctx None 0 = Some (sys, ctx0)"
    by (cases "alloc_init_topo_procent ctx None 0") (auto simp: build_context_def)
  let ?ctx1 = "ctx0\<lparr>system := Some sys\<rparr>"
  have inv1: "build_inv ?ctx1"
    using alloc_build_inv [OF a assms(2)]
    by (auto simp: build_inv_def intro: devices_ok_cong elim: heap_inv_cong)
  have s1: "level (ents ?ctx1 ! sys) = TOPOLOGY_SYSTEM" "sys < length (ents ?ctx1)"
    using alloc_new [OF a] by simp_all
  have "sys = 0" "length (ents ctx0) = 1" using alloc_new(1,2) [OF a] assms(3) by simp_all
  with s1 have t1: "signatures_ok fs ?ctx1"
    by (auto simp: signatures_ok_def threads_ok_def cores_ok_def topology_level_defs)
  from assms(1) a consider "do_one_node fs ?ctx1 sys 0 = Some (rc, ctx')"
    | dir where "nodes_loop fs ?ctx1 sys dir = Some (rc, ctx')"
    by (auto simp: build_context_def Let_def split: option.splits)
  then show ?thesis
  proof cases
    case 1
    then show ?thesis using inv1 s1(1) t1 by (rule do_one_node_signatures_ok)
  next
    case 2
    then show ?thesis using inv1 s1 t1 by (rule nodes_loop_signatures_ok)
  qed
qed

lemma new_context_signatures_ok:
  assumes "new_context fs root sz = Some (Some ctx)"
  shows "signatures_ok fs ctx" "sysfs_root ctx = root"
proof -
  note b = new_context_SomeD [OF assms]
  show "signatures_ok fs ctx"
    using b build_inv_init by (rule build_context_signatures_ok) (simp add: new_context_init_def)
  show "sysfs_root ctx = root"
    using build_context_build_inv(2) [OF b build_inv_init] by (simp add: new_context_init_def)
qed

subsection \<open>The cache loop, cut in two\<close>

lemma get_cache_info_loop_rc:
  "get_cache_info_loop fs ctx cpu n i = Some (rc, ctx') \<Longrightarrow> rc = 0 \<or> rc = 1"
proof (induction n arbitrary: ctx i)
  case 0
  then show ?case by simp
next
  case (Suc n)
  from Suc.prems show ?case
    by (cases rule: get_cache_info_loop_cases) (auto dest: Suc.IH)
qed

lemma get_cache_info_loop_split:
  "get_cache_info_loop fs ctx cpu (k + n) i =
     (case get_cache_info_loop fs ctx cpu k i of
        None \<Rightarrow> None
      | Some (rc, ctx1) \<Rightarrow>
          if rc \<noteq> 0 then Some (rc, ctx1) else get_cache_info_loop fs ctx1 cpu n (i + k))"
proof (induction k arbitrary: ctx i)
  case 0
  show ?case by simp
next
  case (Suc k)
  show ?case
    by (simp add: Suc.IH Let_def split: prod.split option.split)
qed

lemma get_cache_info_index_missing:
  assumes "a \<in> set [''size'', ''type'', ''level'', ''shared_cpu_map'']"
    and "sysfs_get_attr_value fs
           (sysfs_root ctx @ ''/devices/system/cpu/cpu'' @ sprintf_d cpu @ ''/cache/index'' @
            sprintf_d index) a = None"
  shows "fst (get_cache_info_index fs ctx cache cpu index) = 1"
  using assms
  by (auto simp: get_cache_info_index_def sysfs_get_attr_def Let_def split: option.split)

lemma get_cache_info_loop_missing:
  assumes "a \<in> set [''size'', ''type'', ''level'', ''shared_cpu_map'']"
    and "sysfs_get_attr_value fs
           (sysfs_root ctx @ ''/devices/system/cpu/cpu'' @ sprintf_d cpu @ ''/cache/index'' @
            sprintf_d (int k)) a = None"
  shows "get_cache_info_loop fs ctx cpu (Suc n) k = Some (1, ctx)"
  using get_cache_info_index_missing [OF assms, of "alloc_topo_device ctx ''cache''"]
  by (cases "get_cache_info_index fs ctx (alloc_topo_device ctx ''cache'') cpu (int k)")
    (simp add: Let_def)

lemma do_one_cpu_core_step:
  assumes run: "do_one_cpu fs c0 node cpu = Some (rc, c1)"
  shows "\<exists>pkg core.
      htable_lookup (package_htable c1) (sysfs_cpu_core_siblings fs (sysfs_root c0) cpu) = Some pkg \<and>
      htable_lookup (core_htable c1) (sysfs_cpu_thread_siblings fs (sysfs_root c0) cpu) = Some core \<and>
      parent (ents c1 ! (length (ents c1) - 1)) = Some core \<and>
      ent_id (ents c1 ! (length (ents c1) - 1)) = cpu \<and>
      (case htable_lookup (core_htable c0) (sysfs_cpu_thread_siblings fs (sysfs_root c0) cpu) of
         Some k \<Rightarrow> core = k
       | None \<Rightarrow> length (ents c0) \<le> core \<and> ent_id (ents c1 ! core) = cpu \<and>
           parent (ents c1 ! core) = Some pkg)"
  using run
proof (rule do_one_cpu_result)
  let ?sp = "sysfs_cpu_core_siblings fs (sysfs_root c0) cpu"
  let ?sc = "sysfs_cpu_thread_siblings fs (sysfs_root c0) cpu"
  fix pkg core thread
  assume R: "htable_lookup (package_htable c1) ?sp = Some pkg"
    "htable_lookup (core_htable c1) ?sc = Some core"
    "Suc thread = length (ents c1)"
    "parent (ents c1 ! thread) = Some core" "ent_id (ents c1 ! thread) = cpu"
    "\<And>c. htable_lookup (core_htable c0) ?sc = Some c \<Longrightarrow> core = c"
    "htable_lookup (core_htable c0) ?sc = None
       \<Longrightarrow> length (ents c0) \<le> core \<and> core < thread \<and> parent (ents c1 ! core) = Some pkg \<and>
           hash_key (ents c1 ! core) = Some ?sc \<and> ent_id (ents c1 ! core) = cpu"
  from R(3) have th: "length (ents c1) - 1 = thread" by simp
  have "case htable_lookup (core_htable c0) ?sc of
         Some k \<Rightarrow> core = k
       | None \<Rightarrow> length (ents c0) \<le> core \<and> ent_id (ents c1 ! core) = cpu \<and>
           parent (ents c1 ! core) = Some pkg"
  proof (cases "htable_lookup (core_htable c0) ?sc")
    case None
    from R(7) [OF None] have "length (ents c0) \<le> core \<and> ent_id (ents c1 ! core) = cpu \<and>
           parent (ents c1 ! core) = Some pkg" by blast
    then show ?thesis unfolding None option.case .
  next
    case (Some k)
    from R(6) [OF Some] show ?thesis unfolding Some option.case .
  qed
  with R(1,2,4,5) show ?thesis unfolding th by blast
qed

subsection \<open>Claim about traversal\<close>

text \<open>
  Claim C9. In every context the library builds, for every entity \<open>from\<close> of the context
  and every \<open>iter\<close>: \<open>traverse\<close> returns the parent of \<open>from\<close> when \<open>to\<close> is the level of
  \<open>from\<close> plus one, whatever \<open>iter\<close> is; it returns the null pointer when \<open>to\<close> is the level
  of \<open>from\<close>, when \<open>to\<close> is not one of the levels 1 to 5, and when \<open>from\<close> is null.
\<close>

theorem traverse_parent_and_null:
  assumes "new_context fs root sz = Some (Some ctx)" and "procent ctx f = Some fr"
  shows "(to = level fr + 1 \<longrightarrow> traverse ctx (Some f) iter to = Some (parent fr)) \<and>
    (to = level fr \<longrightarrow> traverse ctx (Some f) iter to = Some None) \<and>
    (\<not> (1 \<le> to \<and> to \<le> 5) \<longrightarrow> traverse ctx (Some f) iter to = Some None) \<and>
    traverse ctx None iter to = Some None"
proof -
  from new_context_heap_inv [OF assms(1)] have ok: "ents_ok ctx" by (simp add: heap_inv_def)
  have "level_valid to \<longleftrightarrow> 1 \<le> to \<and> to \<le> 5"
    by (simp add: level_valid_def topology_level_defs)
  then show ?thesis
    using traverse_parent [OF ok assms(2), of to iter] traverse_same_level [OF assms(2), of to iter]
      traverse_null_cases(1) [of to ctx "Some f" iter] traverse_null_cases(2) [of ctx iter to]
    by simp
qed

text \<open>
  Claim C9, witness: in the context built from \<open>fs_shared_core\<close>, entity 4 is the thread of
  CPU 0 and entity 3 is its core. From the thread, level 2 gives the core with a null and
  with a non-null \<open>iter\<close>; level 1 (its own level) and level 6 give null.
\<close>

theorem traverse_parent_and_null_witness:
  "new_context fs_shared_core ''/sys'' 8 = Some (Some ctx_shared_core) \<and>
   level (ents ctx_shared_core ! 4) = 1 \<and>
   traverse ctx_shared_core (Some 4) None 2 = Some (Some 3) \<and>
   traverse ctx_shared_core (Some 4) (Some 6) 2 = Some (Some 3) \<and>
   traverse ctx_shared_core (Some 4) None 1 = Some None \<and>
   traverse ctx_shared_core (Some 4) None 6 = Some None \<and>
   traverse ctx_shared_core None None 2 = Some None"
proof -
  have b: "new_context fs_shared_core ''/sys'' 8 = Some (Some ctx_shared_core)"
    by code_simp
  have p: "procent ctx_shared_core 4 = Some (ents ctx_shared_core ! 4)"
    by code_simp
  have e: "level (ents ctx_shared_core ! 4) = 1"
    by code_simp
  have e': "parent (ents ctx_shared_core ! 4) = Some 3"
    by code_simp
  from traverse_parent_and_null [OF b p, of 2 None] traverse_parent_and_null [OF b p, of 2 "Some 6"]
    traverse_parent_and_null [OF b p, of 1 None] traverse_parent_and_null [OF b p, of 6 None]
    b e e'
  show ?thesis by simp
qed

subsection \<open>Claim about the masks of the entities\<close>

text \<open>
  Claim C6. In every successfully built context the mask of every entity that is not a
  thread is the union of the masks of its direct children; every bit set in the mask of an
  entity is the CPU id of a thread from which the entity is reached along parent pointers;
  and a newly allocated entity has an all-zero mask.
\<close>

theorem built_masks_are_child_unions:
  assumes "new_context fs root sz = Some (Some ctx)"
  shows "(\<forall>e<length (ents ctx). level (ents ctx ! e) \<noteq> TOPOLOGY_THREAD \<longrightarrow>
            ent_cpumask (ents ctx ! e) =
              \<Union> (set (map (\<lambda>c. ent_cpumask (ents ctx ! c)) (children_of (ents ctx) e)))) \<and>
    (\<forall>e<length (ents ctx). \<forall>b\<in>ent_cpumask (ents ctx ! e).
        \<exists>t<length (ents ctx). level (ents ctx ! t) = TOPOLOGY_THREAD \<and>
          b = size_t_of_int (ent_id (ents ctx ! t)) \<and> on_parent_chain (ents ctx) t e) \<and>
    (\<forall>c par ident e c'. alloc_init_topo_procent c par ident = Some (e, c') \<longrightarrow>
        ent_cpumask (ents c' ! e) = {})"
proof -
  from new_context_heap_inv [OF assms] have "masks_ok ctx" "bits_ok ctx"
    by (simp_all add: heap_inv_def)
  then show ?thesis
    unfolding masks_ok_def bits_ok_def child_masks_def
    by (intro conjI) (assumption, assumption, blast dest: alloc_new(5))
qed

text \<open>
  Claim C6, witness: in the context built from \<open>fs_shared_core\<close> the core (entity 3) has
  the two threads (entities 4 and 6) as children and the mask with bits 0 and 1; the
  package of CPU 1 (entity 5) has no child and an empty mask.
\<close>

theorem built_masks_are_child_unions_witness:
  "new_context fs_shared_core ''/sys'' 8 = Some (Some ctx_shared_core) \<and>
   children_of (ents ctx_shared_core) 3 = [4, 6] \<and>
   ent_cpumask (ents ctx_shared_core ! 3) = {0, 1} \<and>
   ent_cpumask (ents ctx_shared_core ! 3) =
     \<Union> (set (map (\<lambda>c. ent_cpumask (ents ctx_shared_core ! c)) (children_of (ents ctx_shared_core) 3))) \<and>
   children_of (ents ctx_shared_core) 5 = [] \<and>
   ent_cpumask (ents ctx_shared_core ! 5) = {}"
proof -
  have b: "new_context fs_shared_core ''/sys'' 8 = Some (Some ctx_shared_core)"
    by code_simp
  have l: "3 < length (ents ctx_shared_core)"
    by code_simp
  have n: "level (ents ctx_shared_core ! 3) \<noteq> TOPOLOGY_THREAD"
    by code_simp
  have c: "children_of (ents ctx_shared_core) 3 = [4, 6]"
    by code_simp
  have c5: "children_of (ents ctx_shared_core) 5 = []"
    by code_simp
  have m: "ent_cpumask (ents ctx_shared_core ! 3) = {0, 1}"
    by code_simp
  have m5: "ent_cpumask (ents ctx_shared_core ! 5) = {}"
    by code_simp
  from built_masks_are_child_unions [OF b] l n
  have "ent_cpumask (ents ctx_shared_core ! 3) =
     \<Union> (set (map (\<lambda>c. ent_cpumask (ents ctx_shared_core ! c)) (children_of (ents ctx_shared_core) 3)))"
    by blast
  with b c c5 m m5 show ?thesis by blast
qed

subsection \<open>Claims about cache discovery\<close>

text \<open>
  Claim C7. In every successfully built context the registered cache devices have pairwise
  different (level, type, shared_cpu_map) triples. Each registered device carries the key
  \<open>cache-L<level>-<type>-<shared_cpu_map>\<close> made of its own attributes, the keys are
  pairwise different and all of them are in the device hash table; and in the discovery
  loop a cache whose key is found in the table is dropped: the loop goes on to the next
  index with the context unchanged.
\<close>

theorem built_caches_distinct:
  assumes "new_context fs root sz = Some (Some ctx)"
  shows "distinct (map cache_triple (devices ctx)) \<and>
    distinct (map dev_hash_key (devices ctx)) \<and>
    (\<forall>d\<in>set (devices ctx). \<exists>lvl type cpus.
        cache_triple d = (Some lvl, Some type, Some cpus) \<and>
        dev_hash_key d = Some (''cache-L'' @ lvl @ ''-'' @ type @ ''-'' @ cpus) \<and>
        htable_lookup (device_htable ctx) (''cache-L'' @ lvl @ ''-'' @ type @ ''-'' @ cpus) \<noteq> None) \<and>
    (\<forall>c cpu idx n cache1 cache2 key.
        get_cache_info_index fs c (alloc_topo_device c ''cache'') cpu (int idx) = (0, cache1) \<longrightarrow>
        cache_build_hash cache1 = (0, cache2) \<longrightarrow> dev_hash_key cache2 = Some key \<longrightarrow>
        htable_lookup (device_htable c) key \<noteq> None \<longrightarrow>
        get_cache_info_loop fs c cpu (Suc n) idx = get_cache_info_loop fs c cpu n (Suc idx))"
proof -
  from new_context_build_inv [OF assms] have ok: "devices_ok ctx" by (simp add: build_inv_def)
  then have d: "distinct (map dev_hash_key (devices ctx))"
    and k: "\<forall>d\<in>set (devices ctx). \<exists>k. dev_hash_key d = Some k \<and>
        triple_key (cache_triple d) = Some k \<and> htable_lookup (device_htable ctx) k \<noteq> None"
    by (simp_all add: devices_ok_def)
  from k have "\<forall>x\<in>set (devices ctx). dev_hash_key x = triple_key (cache_triple x)" by auto
  with d have "distinct (map cache_triple (devices ctx))" by (rule distinct_map_factor)
  moreover from k have "\<forall>d\<in>set (devices ctx). \<exists>lvl type cpus.
        cache_triple d = (Some lvl, Some type, Some cpus) \<and>
        dev_hash_key d = Some (''cache-L'' @ lvl @ ''-'' @ type @ ''-'' @ cpus) \<and>
        htable_lookup (device_htable ctx) (''cache-L'' @ lvl @ ''-'' @ type @ ''-'' @ cpus) \<noteq> None"
    by (fastforce simp: triple_key_Some)
  ultimately show ?thesis
    using d get_cache_info_loop_seen by blast
qed

text \<open>
  Claim C7, witness: \<open>fs_shared_cache\<close> lists the shared level 2 cache under both CPUs; the
  built context has it once, next to the two level 1 caches.
\<close>

theorem built_caches_distinct_witness:
  "new_context fs_shared_cache ''/sys'' 8 = Some (Some ctx_shared_cache) \<and>
   map cache_triple (devices ctx_shared_cache) =
     [(Some ''1'', Some ''Data'', Some ''2''), (Some ''2'', Some ''Unified'', Some ''3''),
      (Some ''1'', Some ''Data'', Some ''1'')] \<and>
   distinct (map cache_triple (devices ctx_shared_cache)) \<and>
   distinct (map dev_hash_key (devices ctx_shared_cache))"
proof -
  have b: "new_context fs_shared_cache ''/sys'' 8 = Some (Some ctx_shared_cache)"
    by code_simp
  have t: "map cache_triple (devices ctx_shared_cache) =
     [(Some ''1'', Some ''Data'', Some ''2''), (Some ''2'', Some ''Unified'', Some ''3''),
      (Some ''1'', Some ''Data'', Some ''1'')]"
    by code_simp
  from built_caches_distinct [OF b] b t show ?thesis by blast
qed

subsection \<open>Claims about the package signature\<close>

text \<open>
  Claim C3 as stated (a CPU without a \<open>core_siblings\<close> file always gets the decimal CPU id
  as its package signature, whether or not \<open>thread_siblings\<close> exists) does not hold of
  \<open>sysfs_cpu_core_siblings\<close>, which falls back to \<open>sysfs_cpu_thread_siblings\<close>. In
  \<open>fs_no_core_siblings\<close> CPU 0 has no \<open>core_siblings\<close> and its \<open>thread_siblings\<close> holds
  \<open>3\<close>: the signature is \<open>3\<close>, not \<open>0\<close>, and the built context has its only package
  (entity 2) under the key \<open>3\<close> and nothing under \<open>0\<close>.
\<close>

theorem package_signature_counterexample:
  "slurp_text_file fs_no_core_siblings ''/sys/devices/system/cpu/cpu0/topology/core_siblings'' = None \<and>
   sysfs_cpu_core_siblings fs_no_core_siblings ''/sys'' 0 = ''3'' \<and>
   sprintf_d 0 = ''0'' \<and>
   new_context fs_no_core_siblings ''/sys'' 8 = Some (Some ctx_no_core_siblings) \<and>
   htable_lookup (package_htable ctx_no_core_siblings) ''0'' = None \<and>
   htable_lookup (package_htable ctx_no_core_siblings) ''3'' = Some 2 \<and>
   level (ents ctx_no_core_siblings ! 2) = TOPOLOGY_PACKAGE \<and>
   hash_key (ents ctx_no_core_siblings ! 2) = Some ''3''"
  by code_simp

text \<open>
  Claim C3, amended. When \<open>do_one_cpu\<close> runs for a CPU whose \<open>core_siblings\<close> file is
  absent, the package signature is the contents of the CPU's \<open>thread_siblings\<close> file if
  that file exists, and the CPU id printed in decimal only if it is absent too. This is
  the string that is looked up in the package table and under which a new package is
  registered: afterwards the table has a package under it; that package is the one the
  table held before, if any; otherwise it is a new entity, child of the node, whose
  \<open>hash_key\<close> is the signature.
\<close>

theorem package_signature_without_core_siblings:
  assumes "do_one_cpu fs ctx node cpu = Some (rc, ctx')"
    and "slurp_text_file fs
           (sysfs_root ctx @ ''/devices/system/cpu/cpu'' @ sprintf_d cpu @ ''/topology/core_siblings'')
         = None"
    and "S = (case slurp_text_file fs
                (sysfs_root ctx @ ''/devices/system/cpu/cpu'' @ sprintf_d cpu @
                 ''/topology/thread_siblings'') of
              Some buf \<Rightarrow> buf | None \<Rightarrow> sprintf_d cpu)"
  shows "sysfs_cpu_core_siblings fs (sysfs_root ctx) cpu = S \<and>
    (\<exists>pkg. htable_lookup (package_htable ctx') S = Some pkg \<and>
       (case htable_lookup (package_htable ctx) S of
          Some p \<Rightarrow> pkg = p
        | None \<Rightarrow> pkg = length (ents ctx) \<and> parent (ents ctx' ! pkg) = Some node \<and>
            hash_key (ents ctx' ! pkg) = Some S))"
proof -
  have "sysfs_cpu_core_siblings fs (sysfs_root ctx) cpu =
      sysfs_cpu_thread_siblings fs (sysfs_root ctx) cpu"
    by (simp only: sysfs_cpu_core_siblings_def assms(2) option.case)
  also have "\<dots> = S"
    by (simp only: sysfs_cpu_thread_siblings_def assms(3))
  finally have S: "sysfs_cpu_core_siblings fs (sysfs_root ctx) cpu = S" .
  from assms(1) have "\<exists>pkg. htable_lookup (package_htable ctx') S = Some pkg \<and>
       (case htable_lookup (package_htable ctx) S of
          Some p \<Rightarrow> pkg = p
        | None \<Rightarrow> pkg = length (ents ctx) \<and> parent (ents ctx' ! pkg) = Some node \<and>
            hash_key (ents ctx' ! pkg) = Some S)"
  proof (rule do_one_cpu_result)
    fix pkg
    assume R: "htable_lookup (package_htable ctx')
          (sysfs_cpu_core_siblings fs (sysfs_root ctx) cpu) = Some pkg"
      "\<And>p. htable_lookup (package_htable ctx)
          (sysfs_cpu_core_siblings fs (sysfs_root ctx) cpu) = Some p \<Longrightarrow> pkg = p"
      "htable_lookup (package_htable ctx)
          (sysfs_cpu_core_siblings fs (sysfs_root ctx) cpu) = None \<Longrightarrow>
       pkg = length (ents ctx) \<and> parent (ents ctx' ! pkg) = Some node \<and>
       hash_key (ents ctx' ! pkg) = Some (sysfs_cpu_core_siblings fs (sysfs_root ctx) cpu)"
    have "case htable_lookup (package_htable ctx) S of
          Some p \<Rightarrow> pkg = p
        | None \<Rightarrow> pkg = length (ents ctx) \<and> parent (ents ctx' ! pkg) = Some node \<and>
            hash_key (ents ctx' ! pkg) = Some S"
    proof (cases "htable_lookup (package_htable ctx) S")
      case None
      with R(3) have "pkg = length (ents ctx) \<and> parent (ents ctx' ! pkg) = Some node \<and>
            hash_key (ents ctx' ! pkg) = Some S" unfolding S by blast
      then show ?thesis unfolding None option.case .
    next
      case (Some p)
      with R(2) have "pkg = p" unfolding S by blast
      then show ?thesis unfolding Some option.case .
    qed
    with R(1) show ?thesis unfolding S by blast
  qed
  with S show ?thesis by (rule conjI)
qed

text \<open>
  Claim C3, witness: \<open>do_one_cpu\<close> on CPU 0 of \<open>fs_no_core_siblings\<close>, under the fake node
  (entity 1). The package is the new entity 2, registered under \<open>3\<close>.
\<close>

theorem package_signature_without_core_siblings_witness:
  "do_one_cpu fs_no_core_siblings ctx_fake_node 1 0 = Some (0, ctx_no_core_siblings) \<and>
   sysfs_cpu_core_siblings fs_no_core_siblings (sysfs_root ctx_fake_node) 0 = ''3'' \<and>
   htable_lookup (package_htable ctx_fake_node) ''3'' = None \<and>
   length (ents ctx_fake_node) = 2 \<and>
   htable_lookup (package_htable ctx_no_core_siblings) ''3'' = Some 2 \<and>
   parent (ents ctx_no_core_siblings ! 2) = Some 1 \<and>
   hash_key (ents ctx_no_core_siblings ! 2) = Some ''3''"
proof -
  have run: "do_one_cpu fs_no_core_siblings ctx_fake_node 1 0 = Some (0, ctx_no_core_siblings)"
    by code_simp
  have absent: "slurp_text_file fs_no_core_siblings
           (sysfs_root ctx_fake_node @ ''/devices/system/cpu/cpu'' @ sprintf_d 0 @
            ''/topology/core_siblings'') = None"
    by code_simp
  have S: "''3'' = (case slurp_text_file fs_no_core_siblings
                (sysfs_root ctx_fake_node @ ''/devices/system/cpu/cpu'' @ sprintf_d 0 @
                 ''/topology/thread_siblings'') of
              Some buf \<Rightarrow> buf | None \<Rightarrow> sprintf_d 0)"
    by code_simp
  have before: "htable_lookup (package_htable ctx_fake_node) ''3'' = None"
    by code_simp
  have len: "length (ents ctx_fake_node) = 2"
    by code_simp
  note T = package_signature_without_core_siblings [OF run absent S]
  from T have s: "sysfs_cpu_core_siblings fs_no_core_siblings (sysfs_root ctx_fake_node) 0 = ''3''"
    by (rule conjunct1)
  from T obtain pkg where p: "htable_lookup (package_htable ctx_no_core_siblings) ''3'' = Some pkg"
    and q: "case htable_lookup (package_htable ctx_fake_node) ''3'' of
          Some p \<Rightarrow> pkg = p
        | None \<Rightarrow> pkg = length (ents ctx_fake_node) \<and>
            parent (ents ctx_no_core_siblings ! pkg) = Some 1 \<and>
            hash_key (ents ctx_no_core_siblings ! pkg) = Some ''3''"
    by blast
  from q have r: "pkg = length (ents ctx_fake_node)"
    "parent (ents ctx_no_core_siblings ! pkg) = Some 1"
    "hash_key (ents ctx_no_core_siblings ! pkg) = Some ''3''"
    unfolding before option.case by blast+
  from r(1) have pk: "pkg = 2" unfolding len .
  from p r(2,3) have "htable_lookup (package_htable ctx_no_core_siblings) ''3'' = Some 2"
    "parent (ents ctx_no_core_siblings ! 2) = Some 1"
    "hash_key (ents ctx_no_core_siblings ! 2) = Some ''3''"
    unfolding pk .
  with run s before len show ?thesis by (intro conjI)
qed

subsection \<open>Claims about core coalescing\<close>

text \<open>
  Claim C5 as stated (cores are coalesced per package: two CPUs with equal
  \<open>thread_siblings\<close> in different packages get two core entities) does not hold: the
  context has one core table for the whole build. In \<open>fs_shared_core\<close> CPU 0 and CPU 1
  have the same \<open>thread_siblings\<close> and different \<open>core_siblings\<close>; the build makes the two
  packages (entities 2 and 5) and a single core (entity 3), child of package 2, which is
  the parent of both threads (entities 4 and 6); package 5 has no child.
\<close>

theorem core_per_package_counterexample:
  "new_context fs_shared_core ''/sys'' 8 = Some (Some ctx_shared_core) \<and>
   sysfs_cpu_thread_siblings fs_shared_core ''/sys'' 0 =
     sysfs_cpu_thread_siblings fs_shared_core ''/sys'' 1 \<and>
   htable_lookup (package_htable ctx_shared_core)
     (sysfs_cpu_core_siblings fs_shared_core ''/sys'' 0) = Some 2 \<and>
   htable_lookup (package_htable ctx_shared_core)
     (sysfs_cpu_core_siblings fs_shared_core ''/sys'' 1) = Some 5 \<and>
   map (\<lambda>e. (level e, ent_id e, parent e)) (ents ctx_shared_core) =
     [(TOPOLOGY_SYSTEM, 0, None), (TOPOLOGY_NODE, 0, Some 0), (TOPOLOGY_PACKAGE, 0, Some 1),
      (TOPOLOGY_CORE, 0, Some 2), (TOPOLOGY_THREAD, 0, Some 3), (TOPOLOGY_PACKAGE, 1, Some 1),
      (TOPOLOGY_THREAD, 1, Some 3)] \<and>
   children_of (ents ctx_shared_core) 5 = []"
  by code_simp

text \<open>
  Claim C5, amended. Core coalescing is scoped to the build, not to the package: the
  context has one core table. In every successfully built context any two thread entities
  whose CPUs have equal \<open>thread_siblings\<close> signatures have the same parent, whatever their
  \<open>core_siblings\<close> signatures are; that parent is a core entity, the one the core table
  holds under the signature. The core carries the id of a CPU that has it as its core, and
  it is a child of the package entity that the package table holds under the
  \<open>core_siblings\<close> signature of that CPU. That CPU is the one that created the core: each
  run of \<open>do_one_cpu\<close> makes the new thread (the last entity allocated) a child of the core
  the table holds under the CPU's \<open>thread_siblings\<close> signature, which is the core the
  table held before, if any, whatever the package of the CPU is, and otherwise a new
  entity with the CPU's id, child of the CPU's package.
\<close>

theorem built_cores_shared_by_signature:
  assumes "new_context fs root sz = Some (Some ctx)"
    and "t1 < length (ents ctx)" "level (ents ctx ! t1) = TOPOLOGY_THREAD"
    and "t2 < length (ents ctx)" "level (ents ctx ! t2) = TOPOLOGY_THREAD"
    and "sysfs_cpu_thread_siblings fs root (ent_id (ents ctx ! t1)) =
         sysfs_cpu_thread_siblings fs root (ent_id (ents ctx ! t2))"
  shows "(\<exists>c p. parent (ents ctx ! t1) = Some c \<and> parent (ents ctx ! t2) = Some c \<and>
      c < length (ents ctx) \<and> level (ents ctx ! c) = TOPOLOGY_CORE \<and>
      htable_lookup (core_htable ctx)
        (sysfs_cpu_thread_siblings fs root (ent_id (ents ctx ! t1))) = Some c \<and>
      parent (ents ctx ! c) = Some p \<and>
      p < length (ents ctx) \<and> level (ents ctx ! p) = TOPOLOGY_PACKAGE \<and>
      htable_lookup (package_htable ctx)
        (sysfs_cpu_core_siblings fs root (ent_id (ents ctx ! c))) = Some p \<and>
      htable_lookup (core_htable ctx)
        (sysfs_cpu_thread_siblings fs root (ent_id (ents ctx ! c))) = Some c) \<and>
    (\<forall>c0 node cpu rc c1. do_one_cpu fs c0 node cpu = Some (rc, c1) \<longrightarrow>
      (\<exists>pkg core.
        htable_lookup (package_htable c1) (sysfs_cpu_core_siblings fs (sysfs_root c0) cpu) = Some pkg \<and>
        htable_lookup (core_htable c1) (sysfs_cpu_thread_siblings fs (sysfs_root c0) cpu) = Some core \<and>
        parent (ents c1 ! (length (ents c1) - 1)) = Some core \<and>
        ent_id (ents c1 ! (length (ents c1) - 1)) = cpu \<and>
        (case htable_lookup (core_htable c0) (sysfs_cpu_thread_siblings fs (sysfs_root c0) cpu) of
           Some k \<Rightarrow> core = k
         | None \<Rightarrow> length (ents c0) \<le> core \<and> ent_id (ents c1 ! core) = cpu \<and>
             parent (ents c1 ! core) = Some pkg)))"
proof (rule conjI)
  note T = new_context_signatures_ok [OF assms(1)]
  from T(1) have thr: "threads_ok fs ctx" and cor: "cores_ok fs ctx"
    by (simp_all add: signatures_ok_def)
  from new_context_heap_inv [OF assms(1)] have tab: "tables_ok ctx" by (simp add: heap_inv_def)
  let ?S = "sysfs_cpu_thread_siblings fs root (ent_id (ents ctx ! t1))"
  from thr assms(2,3) have p1: "parent (ents ctx ! t1) \<noteq> None"
    "parent (ents ctx ! t1) = htable_lookup (core_htable ctx) ?S"
    unfolding threads_ok_def T(2) by blast+
  from thr assms(4,5) have p2: "parent (ents ctx ! t2) =
    htable_lookup (core_htable ctx) (sysfs_cpu_thread_siblings fs root (ent_id (ents ctx ! t2)))"
    unfolding threads_ok_def T(2) by blast
  from p1 obtain c where c: "parent (ents ctx ! t1) = Some c" by blast
  with p1(2) have l: "htable_lookup (core_htable ctx) ?S = Some c" by simp
  from p2 assms(6) l have c2: "parent (ents ctx ! t2) = Some c" by simp
  note lc = tables_okD(2) [OF tab l]
  from lc have c_len: "c < length (ents ctx)" and c_lev: "level (ents ctx ! c) = TOPOLOGY_CORE"
    by blast+
  from cor c_len c_lev have q: "parent (ents ctx ! c) \<noteq> None"
    "parent (ents ctx ! c) = htable_lookup (package_htable ctx)
        (sysfs_cpu_core_siblings fs root (ent_id (ents ctx ! c)))"
    "htable_lookup (core_htable ctx)
        (sysfs_cpu_thread_siblings fs root (ent_id (ents ctx ! c))) = Some c"
    unfolding cores_ok_def T(2) by blast+
  from q(1) obtain p where p: "parent (ents ctx ! c) = Some p" by blast
  with q(2) have lp: "htable_lookup (package_htable ctx)
        (sysfs_cpu_core_siblings fs root (ent_id (ents ctx ! c))) = Some p" by simp
  from tables_okD(1) [OF tab lp] have "p < length (ents ctx)"
    "level (ents ctx ! p) = TOPOLOGY_PACKAGE" by blast+
  with c c2 c_len c_lev l p lp q(3)
  show "\<exists>c p. parent (ents ctx ! t1) = Some c \<and> parent (ents ctx ! t2) = Some c \<and>
      c < length (ents ctx) \<and> level (ents ctx ! c) = TOPOLOGY_CORE \<and>
      htable_lookup (core_htable ctx)
        (sysfs_cpu_thread_siblings fs root (ent_id (ents ctx ! t1))) = Some c \<and>
      parent (ents ctx ! c) = Some p \<and>
      p < length (ents ctx) \<and> level (ents ctx ! p) = TOPOLOGY_PACKAGE \<and>
      htable_lookup (package_htable ctx)
        (sysfs_cpu_core_siblings fs root (ent_id (ents ctx ! c))) = Some p \<and>
      htable_lookup (core_htable ctx)
        (sysfs_cpu_thread_siblings fs root (ent_id (ents ctx ! c))) = Some c"
    by blast
next
  show "\<forall>c0 node cpu rc c1. do_one_cpu fs c0 node cpu = Some (rc, c1) \<longrightarrow>
      (\<exists>pkg core.
        htable_lookup (package_htable c1) (sysfs_cpu_core_siblings fs (sysfs_root c0) cpu) = Some pkg \<and>
        htable_lookup (core_htable c1) (sysfs_cpu_thread_siblings fs (sysfs_root c0) cpu) = Some core \<and>
        parent (ents c1 ! (length (ents c1) - 1)) = Some core \<and>
        ent_id (ents c1 ! (length (ents c1) - 1)) = cpu \<and>
        (case htable_lookup (core_htable c0) (sysfs_cpu_thread_siblings fs (sysfs_root c0) cpu) of
           Some k \<Rightarrow> core = k
         | None \<Rightarrow> length (ents c0) \<le> core \<and> ent_id (ents c1 ! core) = cpu \<and>
             parent (ents c1 ! core) = Some pkg))"
    by (intro allI impI) (rule do_one_cpu_core_step)
qed

text \<open>
  Claim C5, witness: the two threads of \<open>ctx_shared_core\<close> (entities 4 and 6) have the same
  core (entity 3) as parent. The core has the id of CPU 0 and is a child of the package of
  CPU 0 (entity 2); the package of CPU 1 is entity 5. When \<open>do_one_cpu\<close> runs for CPU 1 the
  core table holds entity 3 under the signature of CPU 1, and the new thread becomes its
  child.
\<close>

theorem built_cores_shared_by_signature_witness:
  "new_context fs_shared_core ''/sys'' 8 = Some (Some ctx_shared_core) \<and>
   parent (ents ctx_shared_core ! 4) = Some 3 \<and> parent (ents ctx_shared_core ! 6) = Some 3 \<and>
   level (ents ctx_shared_core ! 3) = TOPOLOGY_CORE \<and>
   parent (ents ctx_shared_core ! 3) = Some 2 \<and>
   level (ents ctx_shared_core ! 2) = TOPOLOGY_PACKAGE \<and>
   htable_lookup (package_htable ctx_shared_core)
     (sysfs_cpu_core_siblings fs_shared_core ''/sys'' (ent_id (ents ctx_shared_core ! 3))) = Some 2 \<and>
   htable_lookup (package_htable ctx_shared_core)
     (sysfs_cpu_core_siblings fs_shared_core ''/sys'' (ent_id (ents ctx_shared_core ! 6))) = Some 5 \<and>
   do_one_cpu fs_shared_core ctx_shared_core_cpu0 1 1 = Some (0, ctx_shared_core) \<and>
   htable_lookup (core_htable ctx_shared_core_cpu0)
     (sysfs_cpu_thread_siblings fs_shared_core (sysfs_root ctx_shared_core_cpu0) 1) = Some 3 \<and>
   parent (ents ctx_shared_core ! (length (ents ctx_shared_core) - 1)) = Some 3"
proof -
  have b: "new_context fs_shared_core ''/sys'' 8 = Some (Some ctx_shared_core)"
    by code_simp
  have t1: "4 < length (ents ctx_shared_core)" by code_simp
  have l1: "level (ents ctx_shared_core ! 4) = TOPOLOGY_THREAD" by code_simp
  have t2: "6 < length (ents ctx_shared_core)" by code_simp
  have l2: "level (ents ctx_shared_core ! 6) = TOPOLOGY_THREAD" by code_simp
  have s: "sysfs_cpu_thread_siblings fs_shared_core ''/sys'' (ent_id (ents ctx_shared_core ! 4)) =
     sysfs_cpu_thread_siblings fs_shared_core ''/sys'' (ent_id (ents ctx_shared_core ! 6))"
    by code_simp
  have p4: "parent (ents ctx_shared_core ! 4) = Some 3" by code_simp
  have p3: "parent (ents ctx_shared_core ! 3) = Some 2" by code_simp
  have o: "htable_lookup (package_htable ctx_shared_core)
     (sysfs_cpu_core_siblings fs_shared_core ''/sys'' (ent_id (ents ctx_shared_core ! 6))) = Some 5"
    by code_simp
  have run: "do_one_cpu fs_shared_core ctx_shared_core_cpu0 1 1 = Some (0, ctx_shared_core)"
    by code_simp
  have k: "htable_lookup (core_htable ctx_shared_core_cpu0)
     (sysfs_cpu_thread_siblings fs_shared_core (sysfs_root ctx_shared_core_cpu0) 1) = Some 3"
    by code_simp
  note T = built_cores_shared_by_signature [OF b t1 l1 t2 l2 s]
  from T obtain c p where cp: "parent (ents ctx_shared_core ! 4) = Some c"
    "parent (ents ctx_shared_core ! 6) = Some c"
    "level (ents ctx_shared_core ! c) = TOPOLOGY_CORE"
    "parent (ents ctx_shared_core ! c) = Some p"
    "level (ents ctx_shared_core ! p) = TOPOLOGY_PACKAGE"
    "htable_lookup (package_htable ctx_shared_core)
       (sysfs_cpu_core_siblings fs_shared_core ''/sys'' (ent_id (ents ctx_shared_core ! c))) = Some p"
    by blast
  from cp(1) p4 have c: "c = 3" by simp
  from cp(4) p3 have p: "p = 2" unfolding c by simp
  note A = cp(2,3,4,5,6) [unfolded c p]
  from T have "\<forall>c0 node cpu rc c1.
      do_one_cpu fs_shared_core c0 node cpu = Some (rc, c1) \<longrightarrow>
      (\<exists>pkg core.
        htable_lookup (package_htable c1)
          (sysfs_cpu_core_siblings fs_shared_core (sysfs_root c0) cpu) = Some pkg \<and>
        htable_lookup (core_htable c1)
          (sysfs_cpu_thread_siblings fs_shared_core (sysfs_root c0) cpu) = Some core \<and>
        parent (ents c1 ! (length (ents c1) - 1)) = Some core \<and>
        ent_id (ents c1 ! (length (ents c1) - 1)) = cpu \<and>
        (case htable_lookup (core_htable c0)
                (sysfs_cpu_thread_siblings fs_shared_core (sysfs_root c0) cpu) of
           Some k \<Rightarrow> core = k
         | None \<Rightarrow> length (ents c0) \<le> core \<and> ent_id (ents c1 ! core) = cpu \<and>
             parent (ents c1 ! core) = Some pkg))"
    by (rule conjunct2)
  from this [rule_format, OF run] obtain core where
    q: "parent (ents ctx_shared_core ! (length (ents ctx_shared_core) - 1)) = Some core"
    and r: "case htable_lookup (core_htable ctx_shared_core_cpu0)
                (sysfs_cpu_thread_siblings fs_shared_core (sysfs_root ctx_shared_core_cpu0) 1) of
           Some k \<Rightarrow> core = k
         | None \<Rightarrow> length (ents ctx_shared_core_cpu0) \<le> core \<and>
             ent_id (ents ctx_shared_core ! core) = 1 \<and>
             (\<exists>pkg. parent (ents ctx_shared_core ! core) = Some pkg)"
    by (auto split: option.splits)
  from r have "core = 3" unfolding k option.case .
  with q have last: "parent (ents ctx_shared_core ! (length (ents ctx_shared_core) - 1)) = Some 3"
    by simp
  from b p4 A o run k last show ?thesis by (intro conjI)
qed

subsection \<open>Claims about a cache with a missing attribute\<close>

text \<open>
  Claim C4 as stated (a cache index with a missing attribute is skipped and the later
  indices are still examined) does not hold: every failure in the loop of
  \<open>get_cache_info\<close> is a \<open>goto err\<close>, which leaves the function. In \<open>fs_cache_gap\<close> CPU 0
  has two index directories; \<open>index0\<close> has no \<open>size\<close>, \<open>index1\<close> has all four attributes and
  is accepted by \<open>__get_cache_info\<close> when read on its own; the built context has no cache
  device at all.
\<close>

theorem cache_gap_counterexample:
  "sysfs_count_caches fs_cache_gap ''/sys'' 0 = 2 \<and>
   sysfs_get_attr_value fs_cache_gap ''/sys/devices/system/cpu/cpu0/cache/index0'' ''size'' = None \<and>
   fst (get_cache_info_index fs_cache_gap (new_context_init ''/sys'' 8)
          (alloc_topo_device (new_context_init ''/sys'' 8) ''cache'') 0 1) = 0 \<and>
   new_context fs_cache_gap ''/sys'' 8 = Some (Some ctx_cache_gap) \<and>
   devices ctx_cache_gap = []"
  by code_simp

text \<open>
  Claim C4, amended. If for some index \<open>k\<close> below the number of cache index directories of
  a thread's CPU one of the attributes \<open>size\<close>, \<open>type\<close>, \<open>level\<close>, \<open>shared_cpu_map\<close> is
  missing, cache discovery for the thread stops there: \<open>get_cache_info\<close> returns 1 with
  the context that the indices \<open>0..k-1\<close> alone produce, so no cache at index \<open>k\<close> or later
  is registered (and discovery may have stopped before \<open>k\<close>).
\<close>

theorem cache_discovery_stops_at_missing_attribute:
  assumes "procent ctx thread = Some t"
    and "k < sysfs_count_caches fs (sysfs_root ctx) (ent_id t)"
    and "a \<in> set [''size'', ''type'', ''level'', ''shared_cpu_map'']"
    and "sysfs_get_attr_value fs
           (sysfs_root ctx @ ''/devices/system/cpu/cpu'' @ sprintf_d (ent_id t) @
            ''/cache/index'' @ sprintf_d (int k)) a = None"
  shows "get_cache_info fs ctx thread =
    (case get_cache_info_loop fs ctx (ent_id t) k 0 of
       None \<Rightarrow> None
     | Some (rc, ctx1) \<Rightarrow> Some (1, ctx1))"
proof -
  define n where "n = sysfs_count_caches fs (sysfs_root ctx) (ent_id t)"
  from assms(2) obtain m where n: "n = k + Suc m"
    unfolding n_def by (auto dest: less_imp_Suc_add)
  from assms(2) have "n \<noteq> 0" unfolding n_def by simp
  with assms(1) have g: "get_cache_info fs ctx thread = get_cache_info_loop fs ctx (ent_id t) n 0"
    unfolding get_cache_info_def n_def by (simp only: option.case Let_def if_False)
  have sp: "get_cache_info_loop fs ctx (ent_id t) n 0 =
     (case get_cache_info_loop fs ctx (ent_id t) k 0 of
        None \<Rightarrow> None
      | Some (rc, ctx1) \<Rightarrow>
          if rc \<noteq> 0 then Some (rc, ctx1)
          else get_cache_info_loop fs ctx1 (ent_id t) (Suc m) (0 + k))"
    unfolding n by (rule get_cache_info_loop_split)
  show ?thesis
  proof (cases "get_cache_info_loop fs ctx (ent_id t) k 0")
    case None
    show ?thesis unfolding g sp None by simp
  next
    case (Some r)
    obtain rc ctx1 where r: "r = (rc, ctx1)" by (cases r)
    from Some r have run: "get_cache_info_loop fs ctx (ent_id t) k 0 = Some (rc, ctx1)" by simp
    from get_cache_info_loop_rc [OF run] have rc: "rc = 0 \<or> rc = 1" .
    from get_cache_info_loop_frame [OF run] have root: "sysfs_root ctx1 = sysfs_root ctx"
      by (simp add: heap_same_def)
    from assms(4) have "sysfs_get_attr_value fs
           (sysfs_root ctx1 @ ''/devices/system/cpu/cpu'' @ sprintf_d (ent_id t) @
            ''/cache/index'' @ sprintf_d (int k)) a = None" unfolding root .
    with assms(3) have stop: "get_cache_info_loop fs ctx1 (ent_id t) (Suc m) k = Some (1, ctx1)"
      by (rule get_cache_info_loop_missing)
    from rc show ?thesis
    proof
      assume "rc = 0"
      then show ?thesis unfolding g sp run using stop by simp
    next
      assume "rc = 1"
      then show ?thesis unfolding g sp run by simp
    qed
  qed
qed

text \<open>
  Claim C4, witness: cache discovery for the thread of \<open>ctx_cache_gap\<close> (entity 4, CPU 0)
  stops at index 0, where \<open>size\<close> is missing, and leaves the context as it is.
\<close>

theorem cache_discovery_stops_at_missing_attribute_witness:
  "procent ctx_cache_gap 4 = Some (ents ctx_cache_gap ! 4) \<and>
   sysfs_count_caches fs_cache_gap (sysfs_root ctx_cache_gap) (ent_id (ents ctx_cache_gap ! 4)) = 2 \<and>
   get_cache_info fs_cache_gap ctx_cache_gap 4 = Some (1, ctx_cache_gap)"
proof -
  have p: "procent ctx_cache_gap 4 = Some (ents ctx_cache_gap ! 4)" by code_simp
  have n: "sysfs_count_caches fs_cache_gap (sysfs_root ctx_cache_gap)
             (ent_id (ents ctx_cache_gap ! 4)) = 2" by code_simp
  have k: "0 < sysfs_count_caches fs_cache_gap (sysfs_root ctx_cache_gap)
             (ent_id (ents ctx_cache_gap ! 4))" unfolding n by simp
  have a: "''size'' \<in> set [''size'', ''type'', ''level'', ''shared_cpu_map'']" by simp
  have m: "sysfs_get_attr_value fs_cache_gap
           (sysfs_root ctx_cache_gap @ ''/devices/system/cpu/cpu'' @
            sprintf_d (ent_id (ents ctx_cache_gap ! 4)) @
            ''/cache/index'' @ sprintf_d (int 0)) ''size'' = None" by code_simp
  have "get_cache_info fs_cache_gap ctx_cache_gap 4 = Some (1, ctx_cache_gap)"
    using cache_discovery_stops_at_missing_attribute [OF p k a m]
    by (simp only: get_cache_info_loop.simps option.case prod.case)
  with p n show ?thesis by (intro conjI)
qed

end
